theory Spec2Isabelle
  imports Complex_Main
begin

section \<open>Python values, strings and exceptions\<close>

text \<open>
  A Python \<open>str\<close> is a sequence of Unicode code points, so a string is a list of
  naturals; \<open>len\<close> is \<open>length\<close>. ASCII literals are written \<open>ustr ''...''\<close>.
\<close>

type_synonym ustring = "nat list"

definition ustr :: "string \<Rightarrow> ustring" where
  "ustr s = map of_char s"

text \<open>
  The arguments of the normalizers are annotated \<open>str\<close> but checked at run time
  (\<open>isinstance(x, str)\<close>), so an argument is a Python value: a string, \<open>None\<close> or an
  integer stand for what a caller may pass.
\<close>

datatype pyval = PyNone | PyInt int | PyStr ustring



text \<open>The exception classes that occur in \<open>normalizer.py\<close> and its libraries.\<close>

datatype pyexc = ValueError | OverflowError | InvalidOperation | TypeError | ZeroDivisionError

subsection \<open>Character classes\<close>

text \<open>
  \<open>str.isspace\<close>, which is also the class \<open>\s\<close> of \<open>re\<close> on \<open>str\<close> patterns and
  what \<open>str.strip()\<close> removes.
\<close>

definition py_isspace :: "nat \<Rightarrow> bool" where
  "py_isspace c \<longleftrightarrow>
     (9 \<le> c \<and> c \<le> 13) \<or> (28 \<le> c \<and> c \<le> 32) \<or> c = 133 \<or> c = 160 \<or> c = 5760 \<or>
     (8192 \<le> c \<and> c \<le> 8202) \<or> c = 8232 \<or> c = 8233 \<or> c = 8239 \<or> c = 8287 \<or>
     c = 12288"

text \<open>
  The class \<open>\d\<close> of \<open>re\<close> on \<open>str\<close> patterns is the Unicode category Nd, whose
  members \<open>decimal.Decimal\<close> reads by their digit value. Outside ASCII the digits come
  in runs of ten; \<open>nd_zeros\<close> lists the zero of each run (Unicode 14.0, the
  database of CPython 3.11).
\<close>

definition nd_zeros :: "nat list" where
  "nd_zeros = [1632, 1776, 1984, 2406, 2534, 2662, 2790, 2918, 3046, 3174, 3302, 3430,
     3558, 3664, 3792, 3872, 4160, 4240, 6112, 6160, 6470, 6608, 6784, 6800, 6992, 7088,
     7232, 7248, 42528, 43216, 43264, 43472, 43504, 43600, 44016, 65296, 66720, 68912,
     69734, 69872, 69942, 70096, 70384, 70736, 70864, 71248, 71360, 71472, 71904, 72016,
     72784, 73040, 73120, 92768, 92864, 93008, 120782, 120792, 120802, 120812, 120822,
     123200, 123632, 125264, 130032]"

definition decimal_value :: "nat \<Rightarrow> nat option" where
  "decimal_value c =
     (if 48 \<le> c \<and> c \<le> 57 then Some (c - 48)
      else if c < 128 then None
      else map_option (\<lambda>z. c - z) (List.find (\<lambda>z. z \<le> c \<and> c < z + 10) nd_zeros))"

definition is_decimal :: "nat \<Rightarrow> bool" where
  "is_decimal c \<longleftrightarrow> decimal_value c \<noteq> None"

definition py_strip :: "ustring \<Rightarrow> ustring" where
  "py_strip s = rev (dropWhile py_isspace (rev (dropWhile py_isspace s)))"

section \<open>The decimal module\<close>

text \<open>
  A finite \<open>Decimal\<close> is a sign, a coefficient and an exponent; its value is
  \<open>(-1)^sign * coeff * 10^exp\<close>. Python compares decimals by value.
\<close>

record decimal =
  dsign :: bool
  dcoeff :: nat
  dexp :: int

definition dec_val :: "decimal \<Rightarrow> rat" where
  "dec_val d =
     (if dsign d then - 1 else 1) *
     (if 0 \<le> dexp d then of_nat (dcoeff d) * 10 ^ nat (dexp d)
      else of_nat (dcoeff d) / 10 ^ nat (- dexp d))"

definition digits_value :: "ustring \<Rightarrow> nat" where
  "digits_value ds = foldl (\<lambda>acc c. acc * 10 + (case decimal_value c of None \<Rightarrow> 0 | Some v \<Rightarrow> v)) 0 ds"

text \<open>
  \<open>Decimal(s)\<close> for a string of an optional sign, digits, an optional point and more
  digits, with at least one digit: the only strings \<open>normalize_amount\<close> builds. The
  conversion is exact. Any other string is answered with \<open>InvalidOperation\<close>
  (the constructor's exponent, infinity and NaN notations are not modelled).
\<close>

definition py_Decimal :: "ustring \<Rightarrow> pyexc + decimal" where
  "py_Decimal s =
     (let (neg, r) = (case s of [] \<Rightarrow> (False, s)
                      | c # t \<Rightarrow> if c = 45 then (True, t) else if c = 43 then (False, t)
                                 else (False, s));
          ip = takeWhile is_decimal r;
          r1 = dropWhile is_decimal r;
          (fp, r2) = (case r1 of [] \<Rightarrow> ([], [])
                      | c # t \<Rightarrow> if c = 46 then (takeWhile is_decimal t, dropWhile is_decimal t)
                                 else ([], r1))
      in if r2 \<noteq> [] \<or> (ip = [] \<and> fp = []) then Inl InvalidOperation
         else Inr \<lparr>dsign = neg, dcoeff = digits_value (ip @ fp), dexp = - int (length fp)\<rparr>)"

text \<open>The number of digits of a coefficient (\<open>len(self._int)\<close>).\<close>

fun ndigits :: "nat \<Rightarrow> nat" where
  "ndigits n = (if n < 10 then 1 else Suc (ndigits (n div 10)))"

text \<open>
  \<open>_rescale(-2, ROUND_HALF_EVEN)\<close>: the coefficient of the value at exponent -2.
  With \<open>k\<close> digits to drop the coefficient is cut at \<open>10^k\<close> and goes up when the part
  cut off is above a half, or is a half and the kept part is odd.
\<close>

definition rescale_cents :: "decimal \<Rightarrow> nat" where
  "rescale_cents d =
     (if dexp d \<ge> - 2 then dcoeff d * 10 ^ nat (dexp d + 2)
      else let k = nat (- 2 - dexp d);
               q = dcoeff d div 10 ^ k;
               r = dcoeff d mod 10 ^ k
           in if 2 * r > 10 ^ k \<or> (2 * r = 10 ^ k \<and> odd q) then q + 1 else q)"

text \<open>
  \<open>amount.quantize(Decimal('0.01'))\<close> in the default context (precision 28,
  rounding half even, \<open>InvalidOperation\<close> trapped): a result of more than 28 digits is
  an error, tested before and after the rounding.
\<close>

definition quantize_cents :: "decimal \<Rightarrow> pyexc + decimal" where
  "quantize_cents d =
     (if dcoeff d = 0 then Inr \<lparr>dsign = dsign d, dcoeff = 0, dexp = - 2\<rparr>
      else if int (ndigits (dcoeff d)) + dexp d + 2 > 28 then Inl InvalidOperation
      else if ndigits (rescale_cents d) > 28 then Inl InvalidOperation
      else Inr \<lparr>dsign = dsign d, dcoeff = rescale_cents d, dexp = - 2\<rparr>)"

section \<open>normalize_amount\<close>

subsection \<open>The regular expressions\<close>

text \<open>
  \<open>re.sub(r'USD|EUR|GBP|JPY', '', cleaned, flags=re.IGNORECASE)\<close>: one scan from the
  left that deletes each match and goes on after it, so the text left behind is not
  scanned again. Under \<open>IGNORECASE\<close> a letter of the pattern matches its two ASCII
  cases, and \<open>S\<close> also matches U+017F (long s).
\<close>

definition ci_letter :: "nat \<Rightarrow> nat \<Rightarrow> bool" where
  "ci_letter l c \<longleftrightarrow> c = l \<or> c = l + 32 \<or> (l = 83 \<and> c = 383)"

fun match_code :: "ustring \<Rightarrow> ustring \<Rightarrow> bool" where
  "match_code [] t = True"
| "match_code (l # p) [] = False"
| "match_code (l # p) (c # t) = (ci_letter l c \<and> match_code p t)"

definition currency_codes :: "ustring list" where
  "currency_codes = [ustr ''USD'', ustr ''EUR'', ustr ''GBP'', ustr ''JPY'']"

fun sub_codes :: "ustring \<Rightarrow> ustring" where
  "sub_codes [] = []"
| "sub_codes (c # cs) =
     (if list_ex (\<lambda>p. match_code p (c # cs)) currency_codes then sub_codes (drop 2 cs)
      else c # sub_codes cs)"

text \<open>
  \<open>re.search(r'(\d+\.?\d*)', cleaned)\<close>: the leftmost match starts at the first
  digit; the pattern is greedy, so it takes the whole digit run, a point if one
  follows, and the digit run after the point.
\<close>

definition search_number :: "ustring \<Rightarrow> ustring option" where
  "search_number s =
     (let t = dropWhile (\<lambda>c. \<not> is_decimal c) s in
      if t = [] then None
      else let ds = takeWhile is_decimal t; r = dropWhile is_decimal t in
        Some (case r of [] \<Rightarrow> ds
              | c # r' \<Rightarrow> if c = 46 then ds @ [46] @ takeWhile is_decimal r' else ds))"

subsection \<open>The function\<close>

text \<open>
  Lines 178 to 194: the sign and the text left after the currency symbols
  (\<open>\<euro>\<close> 8364, \<open>\<yen>\<close> 165, \<open>\<pounds>\<close> 163, \<open>$\<close> 36), the currency codes, the minus signs (45) and
  the commas (44) are removed. The argument is the input after \<open>strip()\<close>.
\<close>

definition starts_with_minus :: "ustring \<Rightarrow> bool" where
  "starts_with_minus s = (case s of [] \<Rightarrow> False | c # t \<Rightarrow> c = 45)"

definition strip_currency :: "ustring \<Rightarrow> ustring" where
  "strip_currency cleaned =
     py_strip (sub_codes (filter (\<lambda>c. c \<noteq> 36)
       (filter (\<lambda>c. c \<noteq> 8364 \<and> c \<noteq> 165 \<and> c \<noteq> 163) cleaned)))"

definition amount_sign_text :: "ustring \<Rightarrow> bool \<times> ustring" where
  "amount_sign_text cleaned =
     (let is_negative = starts_with_minus cleaned;
          cleaned1 = strip_currency cleaned;
          (is_negative, cleaned2) =
             (if 45 \<in> set cleaned1 then (True, filter (\<lambda>c. c \<noteq> 45) cleaned1)
              else (is_negative, cleaned1))
      in (is_negative, filter (\<lambda>c. c \<noteq> 44) cleaned2))"

text \<open>Lines 198 to 208: the string handed to \<open>Decimal\<close>, if a number is found.\<close>

definition amount_numeric_string :: "ustring \<Rightarrow> ustring option" where
  "amount_numeric_string cleaned =
     (case amount_sign_text cleaned of
        (is_negative, text) \<Rightarrow>
          (case search_number text of None \<Rightarrow> None
           | Some numeric_string \<Rightarrow>
               Some (if is_negative then 45 # numeric_string else numeric_string)))"

text \<open>Lines 211 to 222: the body of the \<open>try\<close>.\<close>

definition amount_convert :: "ustring \<Rightarrow> pyexc + decimal option" where
  "amount_convert numeric_string =
     (case py_Decimal numeric_string of Inl e \<Rightarrow> Inl e
      | Inr amount0 \<Rightarrow>
          (case quantize_cents amount0 of Inl e \<Rightarrow> Inl e
           | Inr amount \<Rightarrow>
               if dec_val amount < - 1000000 \<or> dec_val amount > 1000000 then Inr None
               else Inr (Some amount)))"

text \<open>
  The whole function. A value that is falsy or not a \<open>str\<close> is answered with
  \<open>None\<close> by the first guard; the \<open>except\<close> clause turns \<open>InvalidOperation\<close> and
  \<open>ValueError\<close> into \<open>None\<close> and lets any other exception through.
\<close>

fun normalize_amount :: "pyval \<Rightarrow> pyexc + decimal option" where
  "normalize_amount (PyStr amount_string) =
     (if amount_string = [] then Inr None
      else let cleaned = py_strip amount_string in
        if cleaned = [] then Inr None
        else case amount_numeric_string cleaned of None \<Rightarrow> Inr None
             | Some numeric_string \<Rightarrow>
                 (case amount_convert numeric_string of
                    Inl e \<Rightarrow> if e = InvalidOperation \<or> e = ValueError then Inr None else Inl e
                  | Inr res \<Rightarrow> Inr res))"
| "normalize_amount v = Inr None"

text \<open>
  The value \<open>quantize\<close> aims at, whatever the precision of the context: the
  rounded coefficient at exponent -2.
\<close>

definition unbounded_quantize :: "decimal \<Rightarrow> decimal" where
  "unbounded_quantize d = \<lparr>dsign = dsign d, dcoeff = rescale_cents d, dexp = - 2\<rparr>"


section \<open>normalize_merchant\<close>

text \<open>
  The knowledge base. A Python \<open>dict\<close> iterates in insertion order, so it is a list
  of pairs of a category and its keywords.
\<close>

definition MERCHANT_CATEGORIES :: "(ustring \<times> ustring list) list" where
  "MERCHANT_CATEGORIES =
     [(ustr ''uber'', [ustr ''uber'', ustr ''uber trip'', ustr ''uber eats'',
                       ustr ''uber technologies'']),
      (ustr ''amazon'', [ustr ''amazon'', ustr ''amzn'', ustr ''amazon prime'',
                         ustr ''amazon mktplace'']),
      (ustr ''starbucks'', [ustr ''starbucks'', ustr ''sbux'', ustr ''starbucks coffee'']),
      (ustr ''target'', [ustr ''target'', ustr ''tgt'']),
      (ustr ''mcdonalds'', [ustr ''mcdonald'', ustr ''mcd'']),
      (ustr ''gas_station'', [ustr ''shell'', ustr ''chevron'', ustr ''bp'', ustr ''exxon'',
                              ustr ''exxonmobil'']),
      (ustr ''grocery'', [ustr ''whole foods'', ustr ''trader joe'', ustr ''safeway'',
                          ustr ''trader joes'']),
      (ustr ''restaurant'', [ustr ''chipotle'', ustr ''panera'', ustr ''in-n-out'',
                             ustr ''in n out'']),
      (ustr ''utility'', [ustr ''pg&e'', ustr ''pge'', ustr ''pacific gas'', ustr ''comcast'',
                          ustr ''at&t'', ustr ''att'']),
      (ustr ''entertainment'', [ustr ''netflix'', ustr ''spotify'', ustr ''amc''])]"

definition FUZZY_MATCH_THRESHOLD :: real where
  "FUZZY_MATCH_THRESHOLD = 85"

subsection \<open>Letter case\<close>

definition ascii_upper :: "nat \<Rightarrow> bool" where
  "ascii_upper c \<longleftrightarrow> 65 \<le> c \<and> c \<le> 90"

definition ascii_lower :: "nat \<Rightarrow> bool" where
  "ascii_lower c \<longleftrightarrow> 97 \<le> c \<and> c \<le> 122"

text \<open>
  \<open>str.lower()\<close> on a string whose cased characters are ASCII letters.
  \<open>normalize_merchant\<close> lowers only such strings: the comparison name after every
  character outside \<open>[a-zA-Z0-9\s]\<close> is removed, and the keywords.
\<close>

definition lower_ascii :: "ustring \<Rightarrow> ustring" where
  "lower_ascii s = map (\<lambda>c. if ascii_upper c then c + 32 else c) s"

text \<open>
  \<open>str.title()\<close> goes through the string once: a character that follows a cased
  character is replaced by its lower case, any other by its title case. For ASCII
  the case of a character is computed here; for the code points above ASCII it is
  read from the Unicode database, which is a parameter: whether the character is
  cased, its lower case at a position of the string, and its title case.
\<close>

record unidata =
  u_cased :: "nat \<Rightarrow> bool"
  u_lower :: "ustring \<Rightarrow> nat \<Rightarrow> ustring"
  u_title :: "nat \<Rightarrow> ustring"

definition is_cased :: "unidata \<Rightarrow> nat \<Rightarrow> bool" where
  "is_cased U c = (if c < 128 then ascii_upper c \<or> ascii_lower c else u_cased U c)"

definition lower_at :: "unidata \<Rightarrow> ustring \<Rightarrow> nat \<Rightarrow> nat \<Rightarrow> ustring" where
  "lower_at U s i c = (if c < 128 then [if ascii_upper c then c + 32 else c] else u_lower U s i)"

definition title_of :: "unidata \<Rightarrow> nat \<Rightarrow> ustring" where
  "title_of U c = (if c < 128 then [if ascii_lower c then c - 32 else c] else u_title U c)"

fun title_from :: "unidata \<Rightarrow> ustring \<Rightarrow> nat \<Rightarrow> bool \<Rightarrow> ustring \<Rightarrow> ustring" where
  "title_from U s i previous_is_cased [] = []"
| "title_from U s i previous_is_cased (c # cs) =
     (if previous_is_cased then lower_at U s i c else title_of U c) @
     title_from U s (Suc i) (is_cased U c) cs"

definition py_title :: "unidata \<Rightarrow> ustring \<Rightarrow> ustring" where
  "py_title U s = title_from U s 0 False s"

text \<open>A database in which no code point above ASCII is cased, for ASCII inputs.\<close>

definition ascii_unidata :: unidata where
  "ascii_unidata = \<lparr>u_cased = (\<lambda>c. False), u_lower = (\<lambda>s i. take 1 (drop i s)),
                     u_title = (\<lambda>c. [c])\<rparr>"

subsection \<open>The comparison name\<close>

definition ascii_alnum :: "nat \<Rightarrow> bool" where
  "ascii_alnum c \<longleftrightarrow> ascii_lower c \<or> ascii_upper c \<or> (48 \<le> c \<and> c \<le> 57)"

text \<open>\<open>re.sub(r'\s+', ' ', s)\<close>: every run of whitespace becomes one space.\<close>

function collapse_ws :: "ustring \<Rightarrow> ustring" where
  "collapse_ws [] = []"
| "collapse_ws (c # cs) =
     (if py_isspace c then 32 # collapse_ws (dropWhile py_isspace cs)
      else c # collapse_ws cs)"
  by pat_completeness auto
termination
  by (relation "measure length") (auto simp: length_dropWhile_le less_Suc_eq_le)

text \<open>Lines 114 and 115, on the stripped input.\<close>

definition comparison_name :: "ustring \<Rightarrow> ustring" where
  "comparison_name cleaned =
     py_strip (collapse_ws (lower_ascii
       (filter (\<lambda>c. ascii_alnum c \<or> py_isspace c) cleaned)))"

subsection \<open>The search for the best match\<close>

text \<open>
  \<open>fuzz.partial_ratio\<close> of rapidfuzz is a parameter \<open>ratio\<close>: a score for two
  strings. The state of the loops is the triple of \<open>best_match_category\<close>,
  \<open>best_match_score\<close> and \<open>best_match_name\<close>.
\<close>

type_synonym best_match = "ustring option \<times> real \<times> ustring option"

fun scan_keywords ::
  "unidata \<Rightarrow> (ustring \<Rightarrow> ustring \<Rightarrow> real) \<Rightarrow> ustring \<Rightarrow> ustring \<Rightarrow> ustring list \<Rightarrow>
   best_match \<Rightarrow> best_match" where
  "scan_keywords U ratio comparison category [] best = best"
| "scan_keywords U ratio comparison category (keyword # keywords) best =
     (let score = ratio comparison (lower_ascii keyword) in
      scan_keywords U ratio comparison category keywords
        (if score > fst (snd best) \<and> score \<ge> FUZZY_MATCH_THRESHOLD
         then (Some category, score, Some (py_title U keyword))
         else best))"

fun scan_categories ::
  "unidata \<Rightarrow> (ustring \<Rightarrow> ustring \<Rightarrow> real) \<Rightarrow> ustring \<Rightarrow> (ustring \<times> ustring list) list \<Rightarrow>
   best_match \<Rightarrow> best_match" where
  "scan_categories U ratio comparison [] best = best"
| "scan_categories U ratio comparison ((category, keywords) # items) best =
     scan_categories U ratio comparison items
       (scan_keywords U ratio comparison category keywords best)"

text \<open>Truth value of a variable that is \<open>None\<close> or a string.\<close>

fun truthy_opt :: "ustring option \<Rightarrow> bool" where
  "truthy_opt None = False"
| "truthy_opt (Some s) = (s \<noteq> [])"

subsection \<open>The function\<close>

fun normalize_merchant ::
  "unidata \<Rightarrow> (ustring \<Rightarrow> ustring \<Rightarrow> real) \<Rightarrow> pyval \<Rightarrow> pyexc + (ustring \<times> ustring)" where
  "normalize_merchant U ratio (PyStr merchant_name) =
     (if merchant_name = [] then Inr (ustr ''Unknown'', ustr ''other'')
      else let cleaned = py_strip merchant_name in
        if cleaned = [] then Inr (ustr ''Unknown'', ustr ''other'')
        else case scan_categories U ratio (comparison_name cleaned) MERCHANT_CATEGORIES
                    (None, 0, None) of
          (best_match_category, best_match_score, best_match_name) \<Rightarrow>
            if truthy_opt best_match_category \<and> truthy_opt best_match_name
            then Inr (the best_match_name, the best_match_category)
            else Inr (if length cleaned < 50 then py_title U cleaned
                      else take 50 cleaned @ ustr ''...'', ustr ''other''))"
| "normalize_merchant U ratio v = Inr (ustr ''Unknown'', ustr ''other'')"



text \<open>
  A scoring function for examples: 100 when the shorter string occurs in the longer
  one (where \<open>partial_ratio\<close> is 100 as well), 0 otherwise and when one is empty.
\<close>

fun is_infix :: "ustring \<Rightarrow> ustring \<Rightarrow> bool" where
  "is_infix p [] = (p = [])"
| "is_infix p (c # cs) = (take (length p) (c # cs) = p \<or> is_infix p cs)"

definition infix_ratio :: "ustring \<Rightarrow> ustring \<Rightarrow> real" where
  "infix_ratio a b =
     (if a = [] \<or> b = [] then 0
      else if length a \<le> length b then (if is_infix a b then 100 else 0)
      else (if is_infix b a then 100 else 0))"



section \<open>normalize_date\<close>

text \<open>
  The fields of the \<open>datetime\<close> that \<open>normalize_date\<close> reads: the year for the
  range test, and year, month and day for \<open>strftime("%Y-%m-%d")\<close>.
\<close>

record pydate =
  year :: nat
  month :: nat
  day :: nat

fun nat_digits :: "nat \<Rightarrow> ustring" where
  "nat_digits n = (if n < 10 then [48 + n] else nat_digits (n div 10) @ [48 + n mod 10])"

declare nat_digits.simps [simp del]

definition zpad :: "nat \<Rightarrow> nat \<Rightarrow> ustring" where
  "zpad w n = replicate (w - length (nat_digits n)) 48 @ nat_digits n"

text \<open>
  \<open>%m\<close> and \<open>%d\<close> are two digits. \<open>%Y\<close> is the year in decimal; the C library
  decides whether a year below 1000 is padded, and \<open>normalize_date\<close> formats no
  year below 1900.
\<close>

definition strftime_ymd :: "pydate \<Rightarrow> ustring" where
  "strftime_ymd d = nat_digits (year d) @ [45] @ zpad 2 (month d) @ [45] @ zpad 2 (day d)"

text \<open>
  \<open>dateutil.parser.parse\<close> is a parameter \<open>parse\<close>, given the string and the
  \<open>dayfirst\<close> flag and answering with a date or an exception; the year of
  \<open>datetime.now()\<close> is the parameter \<open>current_year\<close>. The \<open>except\<close> clause turns
  \<open>ValueError\<close> and \<open>OverflowError\<close> into \<open>None\<close> and lets any other exception
  through.
\<close>

fun normalize_date ::
  "(ustring \<Rightarrow> bool \<Rightarrow> pyexc + pydate) \<Rightarrow> nat \<Rightarrow> pyval \<Rightarrow> pyexc + ustring option" where
  "normalize_date parse current_year (PyStr date_string0) =
     (if date_string0 = [] then Inr None
      else let date_string = py_strip date_string0 in
        if date_string = [] then Inr None
        else case (case parse date_string False of Inl e \<Rightarrow> Inl e
                   | Inr parsed_date \<Rightarrow>
                       if year parsed_date < 1900 \<or> year parsed_date > current_year + 1
                       then Inr None
                       else Inr (Some (strftime_ymd parsed_date))) of
               Inl e \<Rightarrow> if e = ValueError \<or> e = OverflowError then Inr None else Inl e
             | Inr res \<Rightarrow> Inr res)"
| "normalize_date parse current_year v = Inr None"

subsection \<open>Calendar dates and the ISO form\<close>

definition leap_year :: "nat \<Rightarrow> bool" where
  "leap_year y \<longleftrightarrow> y mod 4 = 0 \<and> (y mod 100 \<noteq> 0 \<or> y mod 400 = 0)"

definition days_in_month :: "nat \<Rightarrow> nat \<Rightarrow> nat" where
  "days_in_month y m =
     (if m = 2 then (if leap_year y then 29 else 28)
      else if m = 4 \<or> m = 6 \<or> m = 9 \<or> m = 11 then 30 else 31)"

text \<open>The dates a \<open>datetime\<close> can hold.\<close>

definition valid_date :: "nat \<Rightarrow> nat \<Rightarrow> nat \<Rightarrow> bool" where
  "valid_date y m d \<longleftrightarrow>
     1 \<le> y \<and> y \<le> 9999 \<and> 1 \<le> m \<and> m \<le> 12 \<and> 1 \<le> d \<and> d \<le> days_in_month y m"

text \<open>The zero-padded string \<open>YYYY-MM-DD\<close> of three numbers.\<close>

definition iso_string :: "nat \<Rightarrow> nat \<Rightarrow> nat \<Rightarrow> ustring" where
  "iso_string y m d = zpad 4 y @ [45] @ zpad 2 m @ [45] @ zpad 2 d"

text \<open>
  What the parser is assumed to do on the ISO form: it reads the three fields as
  year, month and day, returns the date when the calendar has it and raises
  \<open>ValueError\<close> otherwise.
\<close>

definition build_date :: "nat \<Rightarrow> nat \<Rightarrow> nat \<Rightarrow> pyexc + pydate" where
  "build_date y m d =
     (if valid_date y m d then Inr \<lparr>year = y, month = m, day = d\<rparr> else Inl ValueError)"

definition parses_iso :: "(ustring \<Rightarrow> bool \<Rightarrow> pyexc + pydate) \<Rightarrow> bool" where
  "parses_iso parse \<longleftrightarrow>
     (\<forall>y m d. y < 10000 \<and> m < 100 \<and> d < 100 \<longrightarrow>
        parse (iso_string y m d) False = build_date y m d)"

text \<open>
  What the parser is documented to raise on a string: \<open>ParserError\<close>, a subclass of
  \<open>ValueError\<close>, and \<open>OverflowError\<close>.
\<close>

definition raises_documented :: "(ustring \<Rightarrow> bool \<Rightarrow> pyexc + pydate) \<Rightarrow> bool" where
  "raises_documented parse \<longleftrightarrow>
     (\<forall>s e. parse s False = Inl e \<longrightarrow> e = ValueError \<or> e = OverflowError)"

subsection \<open>The parser on numeric dates\<close>

text \<open>
  Three runs of digits with the same separator \<open>-\<close> (45) or \<open>/\<close> (47) between them.
\<close>

definition split_numeric :: "ustring \<Rightarrow> (ustring \<times> nat \<times> ustring \<times> ustring) option" where
  "split_numeric s =
     (let a = takeWhile is_decimal s; r1 = dropWhile is_decimal s in
      case r1 of [] \<Rightarrow> None
      | p # r1' \<Rightarrow>
          (let b = takeWhile is_decimal r1'; r2 = dropWhile is_decimal r1' in
           case r2 of [] \<Rightarrow> None
           | q # c \<Rightarrow>
               if a \<noteq> [] \<and> b \<noteq> [] \<and> c \<noteq> [] \<and> list_all is_decimal c \<and> p = q \<and>
                  (p = 45 \<or> p = 47)
               then Some (a, p, b, c) else None))"

text \<open>
  Modelled from the spec: \<open>dateutil.parser.parse\<close> is a third-party library that is
  not part of \<open>src/\<close>. Section 4.1 of the specification describes it on numeric
  dates: the ISO form \<open>YYYY-MM-DD\<close> is read year first; a date with the year last
  (\<open>MM/DD/YYYY\<close>, \<open>DD-MM-YYYY\<close>, \<open>MM-DD-YYYY\<close>) is read month first, and day first
  only when the first number is above 12 and so cannot be a month; the day must be
  valid for the month and year, or the parse fails. Every other string, and a call
  with \<open>dayfirst\<close> set, is left to the parameter \<open>other\<close>.
\<close>

definition dateutil_parse ::
  "(ustring \<Rightarrow> bool \<Rightarrow> pyexc + pydate) \<Rightarrow> ustring \<Rightarrow> bool \<Rightarrow> pyexc + pydate" where
  "dateutil_parse other s dayfirst =
     (case split_numeric s of
        None \<Rightarrow> other s dayfirst
      | Some (a, sep, b, c) \<Rightarrow>
          if dayfirst \<or> 2 < length b then other s dayfirst
          else if length a = 4 \<and> sep = 45 \<and> length c \<le> 2
          then build_date (digits_value a) (digits_value b) (digits_value c)
          else if length a \<le> 2 \<and> length c = 4
          then (if 12 < digits_value a
                then build_date (digits_value c) (digits_value b) (digits_value a)
                else build_date (digits_value c) (digits_value a) (digits_value b))
          else other s dayfirst)"

text \<open>A parser that knows the numeric dates only, for examples.\<close>

definition numeric_parse :: "ustring \<Rightarrow> bool \<Rightarrow> pyexc + pydate" where
  "numeric_parse = dateutil_parse (\<lambda>s dayfirst. Inl ValueError)"

section \<open>normalize_transaction\<close>

text \<open>
  The dictionary that \<open>normalize_transaction\<close> returns has a fixed set of keys, so
  it is a record. \<open>normalized_merchant\<close> and \<open>category\<close> are \<open>None\<close> only until
  they are assigned, before the function returns.
\<close>

record normalized =
  raw_date :: pyval
  raw_merchant :: pyval
  raw_amount :: pyval
  normalized_date :: "ustring option"
  normalized_merchant :: ustring
  category :: ustring
  normalized_amount :: "decimal option"
  is_valid :: bool
  errors :: "ustring list"

text \<open>The text of a value in an f-string.\<close>

fun py_format :: "pyval \<Rightarrow> ustring" where
  "py_format PyNone = ustr ''None''"
| "py_format (PyInt n) = (if n < 0 then 45 # nat_digits (nat (- n)) else nat_digits (nat n))"
| "py_format (PyStr s) = s"

text \<open>
  The three normalizers are called in the order date, merchant, amount; an exception
  of one of them leaves the function.
\<close>

definition normalize_transaction ::
  "unidata \<Rightarrow> (ustring \<Rightarrow> bool \<Rightarrow> pyexc + pydate) \<Rightarrow> (ustring \<Rightarrow> ustring \<Rightarrow> real) \<Rightarrow> nat \<Rightarrow>
   pyval \<Rightarrow> pyval \<Rightarrow> pyval \<Rightarrow> pyexc + normalized" where
  "normalize_transaction U parse ratio current_year date merchant amount =
     (let valid0 = True; errors0 = [] in
      case normalize_date parse current_year date of Inl e \<Rightarrow> Inl e
      | Inr ndate \<Rightarrow>
          (let valid1 = (if ndate = None then False else valid0);
               errors1 = (if ndate = None
                          then errors0 @ [ustr ''Invalid date: '' @ py_format date]
                          else errors0)
           in case normalize_merchant U ratio merchant of Inl e \<Rightarrow> Inl e
              | Inr (merchant_name, cat) \<Rightarrow>
                  (case normalize_amount amount of Inl e \<Rightarrow> Inl e
                   | Inr namount \<Rightarrow>
                       (let valid2 = (if namount = None then False else valid1);
                            errors2 = (if namount = None
                                       then errors1 @ [ustr ''Invalid amount: '' @ py_format amount]
                                       else errors1)
                        in Inr \<lparr>raw_date = date, raw_merchant = merchant, raw_amount = amount,
                                normalized_date = ndate, normalized_merchant = merchant_name,
                                category = cat, normalized_amount = namount,
                                is_valid = valid2, errors = errors2\<rparr>))))"

section \<open>Floating point numbers\<close>

text \<open>
  A Python \<open>float\<close> is an IEEE 754 binary64 number: 53 significant bits, \<open>-1022\<close>
  the least exponent of a normal number, and overflow at \<open>2 powi 1024\<close>. A finite
  float is the rational number it denotes; the sign of a zero is not kept.
  \<open>Infinity True\<close> is the negative infinity.
\<close>

datatype pyfloat = Finite rat | Infinity bool | NaN

text \<open>\<open>int.bit_length\<close> on a natural number.\<close>

fun bit_length :: "nat \<Rightarrow> nat" where
  "bit_length n = (if n = 0 then 0 else Suc (bit_length (n div 2)))"

declare bit_length.simps [simp del]

text \<open>
  The exponent \<open>e\<close> of a positive rational \<open>x\<close>, with \<open>2 powi e \<le> x < 2 powi (e + 1)\<close>,
  read from the integer part of \<open>x\<close> when \<open>x\<close> is at least 1 and from that of
  \<open>1 / x\<close> otherwise.
\<close>

definition floor_log2 :: "rat \<Rightarrow> int" where
  "floor_log2 x =
     (if 1 \<le> x then int (bit_length (nat \<lfloor>x\<rfloor>)) - 1
      else - int (bit_length (nat (\<lceil>1 / x\<rceil> - 1))))"

text \<open>The nearest integer, a tie going to the even one.\<close>

definition round_half_even :: "rat \<Rightarrow> int" where
  "round_half_even x =
     (let f = \<lfloor>x\<rfloor>; d = x - of_int f
      in if d < 1 / 2 then f else if 1 / 2 < d then f + 1 else if even f then f else f + 1)"

text \<open>
  The float nearest to a rational number, ties to even: the value is rounded to
  a multiple of the spacing \<open>ulp\<close> of its binade, which is \<open>2 powi (e - 52)\<close> for a
  normal number and \<open>2 powi (- 1074)\<close> for a subnormal one. A result of \<open>2 powi 1024\<close>
  or more is an infinity.
\<close>

definition round_b64 :: "rat \<Rightarrow> pyfloat" where
  "round_b64 x =
     (if x = 0 then Finite 0
      else let e = max (floor_log2 \<bar>x\<bar>) (- 1022);
               ulp = 2 powi (e - 52);
               r = of_int (round_half_even (\<bar>x\<bar> / ulp)) * ulp
           in if 2 powi 1024 \<le> r then Infinity (x < 0) else Finite (sgn x * r))"

text \<open>
  \<open>a / b\<close> on two \<open>int\<close>: the correctly rounded quotient, \<open>ZeroDivisionError\<close> for a
  zero divisor and \<open>OverflowError\<close> for a quotient too large for a float.
\<close>

definition int_truediv :: "int \<Rightarrow> int \<Rightarrow> pyexc + pyfloat" where
  "int_truediv a b =
     (if b = 0 then Inl ZeroDivisionError
      else case round_b64 (of_int a / of_int b) of
             Finite q \<Rightarrow> Inr (Finite q)
           | _ \<Rightarrow> Inl OverflowError)"

text \<open>The conversion of an \<open>int\<close> to a float, as an arithmetic operator does it.\<close>

definition int_to_float :: "int \<Rightarrow> pyexc + pyfloat" where
  "int_to_float n =
     (case round_b64 (of_int n) of
        Finite x \<Rightarrow> Inr (Finite x)
      | _ \<Rightarrow> Inl OverflowError)"

text \<open>
  The product of two floats: the rounded exact product; an overflow gives an
  infinity and raises nothing.
\<close>

fun float_mul :: "pyfloat \<Rightarrow> pyfloat \<Rightarrow> pyfloat" where
  "float_mul (Finite x) (Finite y) = round_b64 (x * y)"
| "float_mul (Finite x) (Infinity s) = (if x = 0 then NaN else Infinity (s \<noteq> (x < 0)))"
| "float_mul (Infinity s) (Finite y) = (if y = 0 then NaN else Infinity (s \<noteq> (y < 0)))"
| "float_mul (Infinity s) (Infinity t) = Infinity (s \<noteq> t)"
| "float_mul NaN y = NaN"
| "float_mul x NaN = NaN"

text \<open>\<open>x * n\<close> for a float \<open>x\<close> and an \<open>int\<close> \<open>n\<close>.\<close>

definition float_mul_int :: "pyfloat \<Rightarrow> int \<Rightarrow> pyexc + pyfloat" where
  "float_mul_int x n =
     (case int_to_float n of
        Inl e \<Rightarrow> Inl e
      | Inr y \<Rightarrow> Inr (float_mul x y))"

section \<open>get_normalization_stats\<close>

text \<open>
  The result dictionary as a record. \<open>success_rate\<close> is a float, or the \<open>int\<close> 0
  for an empty list. The dictionary \<open>categories\<close> is a map.
\<close>

datatype pynumber = IntNum int | FloatNum pyfloat

record stats =
  total_transactions :: nat
  valid_transactions :: nat
  invalid_transactions :: int
  success_rate :: pynumber
  date_errors :: nat
  amount_errors :: nat
  categories :: "ustring \<rightharpoonup> nat"

text \<open>
  Lines 292 to 295. Every record made by \<open>normalize_transaction\<close> has the key
  \<open>category\<close>, so the default of \<open>t.get("category", "other")\<close> is not used.
\<close>

fun count_categories :: "(ustring \<rightharpoonup> nat) \<Rightarrow> normalized list \<Rightarrow> (ustring \<rightharpoonup> nat)" where
  "count_categories cats [] = cats"
| "count_categories cats (t # ts) =
     count_categories
       (cats(category t \<mapsto> (case cats (category t) of None \<Rightarrow> 0 | Some n \<Rightarrow> n) + 1)) ts"

text \<open>
  Lines 285 to 305. The counts are taken first; the dictionary display then
  evaluates \<open>valid / total * 100\<close> when \<open>total > 0\<close>: a true division of two \<open>int\<close>,
  which can raise, and the product of the quotient and the \<open>int\<close> 100.
\<close>

definition get_normalization_stats :: "normalized list \<Rightarrow> pyexc + stats" where
  "get_normalization_stats transactions =
     (let total = length transactions;
          valid = length (filter is_valid transactions);
          invalid = int total - int valid;
          date_errors = length (filter (\<lambda>t. normalized_date t = None) transactions);
          amount_errors = length (filter (\<lambda>t. normalized_amount t = None) transactions);
          categories = count_categories Map.empty transactions
      in case (if total > 0
               then (case int_truediv (int valid) (int total) of
                       Inl e \<Rightarrow> Inl e
                     | Inr q \<Rightarrow> (case float_mul_int q 100 of
                                  Inl e \<Rightarrow> Inl e
                                | Inr r \<Rightarrow> Inr (FloatNum r)))
               else Inr (IntNum 0)) of
           Inl e \<Rightarrow> Inl e
         | Inr rate \<Rightarrow>
             Inr \<lparr>total_transactions = total,
                  valid_transactions = valid,
                  invalid_transactions = invalid,
                  success_rate = rate,
                  date_errors = date_errors,
                  amount_errors = amount_errors,
                  categories = categories\<rparr>)"

text \<open>Two records for examples: a valid one and one without a date.\<close>

definition example_valid :: normalized where
  "example_valid =
     \<lparr>raw_date = PyStr (ustr ''2023-01-15''), raw_merchant = PyStr (ustr ''UBER *TRIP''),
      raw_amount = PyStr (ustr ''$45.50''), normalized_date = Some (ustr ''2023-01-15''),
      normalized_merchant = ustr ''Uber'', category = ustr ''uber'',
      normalized_amount = Some \<lparr>dsign = False, dcoeff = 4550, dexp = - 2\<rparr>,
      is_valid = True, errors = []\<rparr>"

definition example_invalid :: normalized where
  "example_invalid =
     \<lparr>raw_date = PyStr (ustr ''Invalid Date''), raw_merchant = PyStr (ustr ''UBER EATS''),
      raw_amount = PyStr (ustr ''12''), normalized_date = None,
      normalized_merchant = ustr ''Uber'', category = ustr ''uber'',
      normalized_amount = Some \<lparr>dsign = False, dcoeff = 1200, dexp = - 2\<rparr>,
      is_valid = False, errors = [ustr ''Invalid date: Invalid Date'']\<rparr>"

section \<open>Properties of normalize_amount\<close>

lemma ndigits_lower: "n \<noteq> 0 \<Longrightarrow> m < ndigits n \<Longrightarrow> 10 ^ m \<le> n"
proof (induction n arbitrary: m rule: ndigits.induct)
  case (1 n)
  show ?case
  proof (cases "n < 10")
    case True
    with "1.prems" show ?thesis by simp
  next
    case False
    show ?thesis
    proof (cases m)
      case 0
      with "1.prems" show ?thesis by simp
    next
      case (Suc m')
      from False have nz: "n div 10 \<noteq> 0" by simp
      from False "1.prems" Suc have "m' < ndigits (n div 10)" by simp
      with "1.IH" False nz have "10 ^ m' \<le> n div 10" by simp
      then show ?thesis using Suc by simp
    qed
  qed
qed

lemma dec_val_cents:
  "dec_val \<lparr>dsign = sg, dcoeff = c, dexp = - 2\<rparr> = (if sg then - (of_nat c / 100) else of_nat c / 100)"
  by (simp add: dec_val_def)

lemma cents_out_of_range:
  "(dec_val \<lparr>dsign = sg, dcoeff = c, dexp = - 2\<rparr> < - 1000000 \<or>
    dec_val \<lparr>dsign = sg, dcoeff = c, dexp = - 2\<rparr> > 1000000) \<longleftrightarrow> c > 100000000"
proof -
  have a: "(of_nat c / (100::rat) > 1000000) \<longleftrightarrow> c > 100000000"
  proof -
    have "(of_nat c / (100::rat) > 1000000) \<longleftrightarrow> (of_nat c > (100000000::rat))" by (simp add: field_simps)
    also have "\<dots> \<longleftrightarrow> (of_nat c > (of_nat 100000000 :: rat))" by simp
    also have "\<dots> \<longleftrightarrow> c > 100000000" by (simp only: of_nat_less_iff)
    finally show ?thesis .
  qed
  have b: "\<not> (of_nat c / (100::rat) < - 1000000)"
  proof -
    have "(0::rat) \<le> of_nat c / 100" by simp
    then show ?thesis by linarith
  qed
  show ?thesis
  proof (cases sg)
    case True
    have "(- (of_nat c / (100::rat)) < - 1000000) \<longleftrightarrow> (of_nat c / (100::rat) > 1000000)" by linarith
    moreover have "\<not> (- (of_nat c / (100::rat)) > 1000000)"
    proof -
      have "(0::rat) \<le> of_nat c / 100" by simp
      then show ?thesis by linarith
    qed
    ultimately show ?thesis using True a by (simp add: dec_val_cents)
  next
    case False
    then show ?thesis using a b by (simp add: dec_val_cents)
  qed
qed

lemma precision_first_check:
  assumes nz: "dcoeff d \<noteq> 0" and big: "int (ndigits (dcoeff d)) + dexp d + 2 > 28"
  shows "rescale_cents d > 100000000"
proof (cases "dexp d \<ge> - 2")
  case True
  have "ndigits (dcoeff d) \<ge> 1" by (cases "dcoeff d < 10") simp_all
  define L where "L = ndigits (dcoeff d) - 1"
  have L: "L < ndigits (dcoeff d)" using \<open>ndigits (dcoeff d) \<ge> 1\<close> by (simp add: L_def)
  have c: "10 ^ L \<le> dcoeff d" using ndigits_lower[OF nz L] .
  define j where "j = nat (dexp d + 2)"
  have "L + j \<ge> 27" using big True \<open>ndigits (dcoeff d) \<ge> 1\<close> by (simp add: L_def j_def)
  have "(10::nat) ^ 27 \<le> 10 ^ (L + j)" using \<open>L + j \<ge> 27\<close> by (intro power_increasing) simp_all
  also have "\<dots> = 10 ^ L * 10 ^ j" by (simp add: power_add)
  also have "\<dots> \<le> dcoeff d * 10 ^ j" using c by simp
  finally have "(10::nat) ^ 27 \<le> rescale_cents d" using True by (simp add: rescale_cents_def j_def)
  then show ?thesis by simp
next
  case False
  define k where "k = nat (- 2 - dexp d)"
  have "ndigits (dcoeff d) \<ge> 1" by (cases "dcoeff d < 10") simp_all
  define L where "L = ndigits (dcoeff d) - 1"
  have L: "L < ndigits (dcoeff d)" using \<open>ndigits (dcoeff d) \<ge> 1\<close> by (simp add: L_def)
  have c: "10 ^ L \<le> dcoeff d" using ndigits_lower[OF nz L] .
  have Lk: "k + 27 \<le> L" using big False \<open>ndigits (dcoeff d) \<ge> 1\<close> by (simp add: L_def k_def)
  have "(10::nat) ^ 27 * 10 ^ k = 10 ^ (k + 27)" by (simp add: power_add)
  also have "\<dots> \<le> 10 ^ L" using Lk by (intro power_increasing) simp_all
  also have "\<dots> \<le> dcoeff d" by (rule c)
  finally have "(10::nat) ^ 27 * 10 ^ k \<le> dcoeff d" .
  then have q: "(10::nat) ^ 27 \<le> dcoeff d div 10 ^ k"
    by (simp add: less_eq_div_iff_mult_less_eq)
  have "dcoeff d div 10 ^ k \<le> rescale_cents d"
    using False by (simp add: rescale_cents_def k_def Let_def)
  with q have "(10::nat) ^ 27 \<le> rescale_cents d" by linarith
  then show ?thesis by simp
qed

lemma precision_second_check:
  assumes "ndigits c > 28"
  shows "c > 100000000"
proof -
  have "c \<noteq> 0"
  proof
    assume "c = 0"
    then have "ndigits c = 1" by simp
    with assms show False by simp
  qed
  from ndigits_lower[OF this assms] have "(10::nat) ^ 28 \<le> c" .
  then show ?thesis by simp
qed

lemma amount_convert_range:
  assumes "py_Decimal ns = Inr d"
  shows "(case amount_convert ns of Inl e \<Rightarrow> if e = InvalidOperation \<or> e = ValueError then Inr None else Inl e
                  | Inr res \<Rightarrow> Inr res) =
         (if dec_val (unbounded_quantize d) < - 1000000 \<or> dec_val (unbounded_quantize d) > 1000000
          then Inr None else Inr (Some (unbounded_quantize d)))"
proof -
  have oor: "(dec_val (unbounded_quantize d) < - 1000000 \<or> dec_val (unbounded_quantize d) > 1000000)
     \<longleftrightarrow> rescale_cents d > 100000000"
    unfolding unbounded_quantize_def by (rule cents_out_of_range)
  consider (zero) "dcoeff d = 0"
    | (p1) "dcoeff d \<noteq> 0" "int (ndigits (dcoeff d)) + dexp d + 2 > 28"
    | (p2) "dcoeff d \<noteq> 0" "\<not> int (ndigits (dcoeff d)) + dexp d + 2 > 28" "ndigits (rescale_cents d) > 28"
    | (ok) "dcoeff d \<noteq> 0" "\<not> int (ndigits (dcoeff d)) + dexp d + 2 > 28" "\<not> ndigits (rescale_cents d) > 28"
    by blast
  then show ?thesis
  proof cases
    case zero
    then have r0: "rescale_cents d = 0" by (simp add: rescale_cents_def Let_def)
    have q: "quantize_cents d = Inr (unbounded_quantize d)"
      using zero r0 by (simp add: quantize_cents_def unbounded_quantize_def)
    show ?thesis using assms q oor r0
      by (simp add: amount_convert_def)
  next
    case p1
    then have "rescale_cents d > 100000000" by (rule precision_first_check)
    moreover have "quantize_cents d = Inl InvalidOperation" using p1 by (simp add: quantize_cents_def)
    ultimately show ?thesis using assms oor by (simp add: amount_convert_def)
  next
    case p2
    then have "rescale_cents d > 100000000" using precision_second_check by blast
    moreover have "quantize_cents d = Inl InvalidOperation" using p2 by (simp add: quantize_cents_def)
    ultimately show ?thesis using assms oor by (simp add: amount_convert_def)
  next
    case ok
    then have q: "quantize_cents d = Inr (unbounded_quantize d)"
      by (simp add: quantize_cents_def unbounded_quantize_def)
    show ?thesis using assms q oor
      by (simp add: amount_convert_def)
  qed
qed


lemma not_decimal_punct: "\<not> is_decimal 43" "\<not> is_decimal 45" "\<not> is_decimal 46"
  by (simp_all add: is_decimal_def decimal_value_def)

lemma search_number_shape:
  assumes "search_number s = Some m"
  shows "\<exists>ds fs. ds \<noteq> [] \<and> (\<forall>c\<in>set ds. is_decimal c) \<and> (\<forall>c\<in>set fs. is_decimal c) \<and>
           (m = ds \<or> m = ds @ 46 # fs)"
proof -
  define t where "t = dropWhile (\<lambda>c. \<not> is_decimal c) s"
  define ds where "ds = takeWhile is_decimal t"
  define r where "r = dropWhile is_decimal t"
  have sn: "search_number s =
      (if t = [] then None
       else Some (case r of [] \<Rightarrow> ds
              | c # r' \<Rightarrow> if c = 46 then ds @ [46] @ takeWhile is_decimal r' else ds))"
    unfolding search_number_def Let_def t_def ds_def r_def by (rule refl)
  have tne: "t \<noteq> []"
  proof
    assume "t = []"
    with sn have "search_number s = None" by simp
    with assms show False by simp
  qed
  have "\<not> \<not> is_decimal (hd (dropWhile (\<lambda>c. \<not> is_decimal c) s))"
    by (rule hd_dropWhile) (use tne in \<open>simp add: t_def\<close>)
  then have hd: "is_decimal (hd t)" by (simp add: t_def)
  obtain x xs where t: "t = x # xs" using tne by (cases t) auto
  have dne: "ds \<noteq> []" using hd unfolding ds_def t by simp
  have dall: "\<forall>c\<in>set ds. is_decimal c"
  proof
    fix c assume "c \<in> set ds"
    then show "is_decimal c" unfolding ds_def by (rule set_takeWhileD[THEN conjunct2])
  qed
  have m: "m = (case r of [] \<Rightarrow> ds | c # r' \<Rightarrow> if c = 46 then ds @ [46] @ takeWhile is_decimal r' else ds)"
    using assms sn tne by simp
  show ?thesis
  proof (cases r)
    case Nil
    with m have "m = ds" by simp
    with dne dall show ?thesis by (intro exI[of _ ds] exI[of _ "[]"]) simp
  next
    case (Cons c r')
    show ?thesis
    proof (cases "c = 46")
      case True
      have fall: "\<forall>c\<in>set (takeWhile is_decimal r'). is_decimal c"
      proof
        fix c assume "c \<in> set (takeWhile is_decimal r')"
        then show "is_decimal c" by (rule set_takeWhileD[THEN conjunct2])
      qed
      have "m = ds @ 46 # takeWhile is_decimal r'" using m Cons True by simp
      with dne dall fall show ?thesis
        by (intro exI[of _ ds] exI[of _ "takeWhile is_decimal r'"]) simp
    next
      case False
      with m Cons have "m = ds" by simp
      with dne dall show ?thesis by (intro exI[of _ ds] exI[of _ "[]"]) simp
    qed
  qed
qed

lemma py_Decimal_int:
  assumes "ds \<noteq> []" "\<forall>c\<in>set ds. is_decimal c"
  shows "py_Decimal (if neg then 45 # ds else ds) =
           Inr \<lparr>dsign = neg, dcoeff = digits_value ds, dexp = 0\<rparr>"
proof -
  obtain x xs where ds: "ds = x # xs" using assms(1) by (cases ds) auto
  then have x: "is_decimal x" using assms(2) by simp
  then have x45: "x \<noteq> 45" "x \<noteq> 43" using not_decimal_punct by auto
  have tw: "takeWhile is_decimal ds = ds" using assms(2) by (simp add: takeWhile_eq_all_conv)
  have dw: "dropWhile is_decimal ds = []" using assms(2) by simp
  show ?thesis
  proof (cases neg)
    case True
    then show ?thesis using assms(1) by (simp add: py_Decimal_def Let_def tw dw)
  next
    case False
    have "py_Decimal (x # xs) = Inr \<lparr>dsign = False, dcoeff = digits_value ds, dexp = 0\<rparr>"
      using x45 tw dw unfolding ds by (simp add: py_Decimal_def Let_def)
    then show ?thesis using False ds by simp
  qed
qed

lemma py_Decimal_frac:
  assumes "ds \<noteq> []" "\<forall>c\<in>set ds. is_decimal c" "\<forall>c\<in>set fs. is_decimal c"
  shows "py_Decimal (if neg then 45 # ds @ 46 # fs else ds @ 46 # fs) =
           Inr \<lparr>dsign = neg, dcoeff = digits_value (ds @ fs), dexp = - int (length fs)\<rparr>"
proof -
  obtain x xs where ds: "ds = x # xs" using assms(1) by (cases ds) auto
  then have x: "is_decimal x" using assms(2) by simp
  then have x45: "x \<noteq> 45" "x \<noteq> 43" using not_decimal_punct by auto
  have tw: "takeWhile is_decimal (ds @ 46 # fs) = ds"
    using assms(2) not_decimal_punct(3) by (simp add: takeWhile_append2)
  have dw: "dropWhile is_decimal (ds @ 46 # fs) = 46 # fs"
    using assms(2) not_decimal_punct(3) by (simp add: dropWhile_append2)
  have tw2: "takeWhile is_decimal fs = fs" using assms(3) by (simp add: takeWhile_eq_all_conv)
  have dw2: "dropWhile is_decimal fs = []" using assms(3) by simp
  show ?thesis
  proof (cases neg)
    case True
    then show ?thesis using assms(1) by (simp add: py_Decimal_def Let_def tw dw tw2 dw2)
  next
    case False
    have "py_Decimal (x # xs @ 46 # fs) =
           Inr \<lparr>dsign = False, dcoeff = digits_value (ds @ fs), dexp = - int (length fs)\<rparr>"
      using x45 tw dw unfolding ds by (simp add: py_Decimal_def Let_def tw2 dw2)
    then show ?thesis using False ds by simp
  qed
qed

lemma numeric_string_Decimal:
  assumes "amount_numeric_string cleaned = Some ns"
  shows "\<exists>d. py_Decimal ns = Inr d \<and> dsign d = fst (amount_sign_text cleaned)"
proof -
  obtain neg tx where st: "amount_sign_text cleaned = (neg, tx)" by (cases "amount_sign_text cleaned")
  from assms st obtain m where m: "search_number tx = Some m" and ns: "ns = (if neg then 45 # m else m)"
    by (auto simp: amount_numeric_string_def split: option.splits)
  from search_number_shape[OF m] obtain ds fs where
    sh: "ds \<noteq> []" "\<forall>c\<in>set ds. is_decimal c" "\<forall>c\<in>set fs. is_decimal c" "m = ds \<or> m = ds @ 46 # fs"
    by blast
  from sh(4) show ?thesis
  proof
    assume "m = ds"
    then have "py_Decimal ns = Inr \<lparr>dsign = neg, dcoeff = digits_value ds, dexp = 0\<rparr>"
      using py_Decimal_int[OF sh(1,2), of neg] ns by (cases neg) simp_all
    then show ?thesis using st by simp
  next
    assume "m = ds @ 46 # fs"
    then have "py_Decimal ns =
        Inr \<lparr>dsign = neg, dcoeff = digits_value (ds @ fs), dexp = - int (length fs)\<rparr>"
      using py_Decimal_frac[OF sh(1,2,3), of neg] ns by (cases neg) simp_all
    then show ?thesis using st by simp
  qed
qed

lemma numeric_string_nonempty:
  assumes "amount_numeric_string cleaned = Some ns"
  shows "cleaned \<noteq> []"
proof
  assume "cleaned = []"
  then have "amount_numeric_string cleaned = None"
    by (simp add: amount_numeric_string_def amount_sign_text_def strip_currency_def
        starts_with_minus_def py_strip_def search_number_def)
  with assms show False by simp
qed

lemma py_strip_Nil: "py_strip [] = []"
  by (simp add: py_strip_def)

lemma amount_range_general:
  "(\<forall>s ns. amount_numeric_string (py_strip s) = Some ns \<longrightarrow>
      (\<exists>d. py_Decimal ns = Inr d \<and>
         normalize_amount (PyStr s) =
           (if dec_val (unbounded_quantize d) < - 1000000 \<or> dec_val (unbounded_quantize d) > 1000000
            then Inr None else Inr (Some (unbounded_quantize d)))))"
proof (intro allI impI)
  fix s ns
  assume ns: "amount_numeric_string (py_strip s) = Some ns"
  from numeric_string_Decimal[OF ns] obtain d where d: "py_Decimal ns = Inr d" by blast
  have c: "py_strip s \<noteq> []" using numeric_string_nonempty[OF ns] .
  then have s: "s \<noteq> []" using py_strip_Nil by auto
  have "normalize_amount (PyStr s) =
          (case amount_convert ns of Inl e \<Rightarrow> if e = InvalidOperation \<or> e = ValueError then Inr None else Inl e
                  | Inr res \<Rightarrow> Inr res)"
    using s c ns by (simp add: Let_def)
  also have "\<dots> = (if dec_val (unbounded_quantize d) < - 1000000 \<or> dec_val (unbounded_quantize d) > 1000000
            then Inr None else Inr (Some (unbounded_quantize d)))"
    by (rule amount_convert_range[OF d])
  finally have "normalize_amount (PyStr s) =
           (if dec_val (unbounded_quantize d) < - 1000000 \<or> dec_val (unbounded_quantize d) > 1000000
            then Inr None else Inr (Some (unbounded_quantize d)))" .
  with d show "\<exists>d. py_Decimal ns = Inr d \<and>
         normalize_amount (PyStr s) =
           (if dec_val (unbounded_quantize d) < - 1000000 \<or> dec_val (unbounded_quantize d) > 1000000
            then Inr None else Inr (Some (unbounded_quantize d)))"
    by (intro exI conjI)
qed

lemmas amount_eval =
  ustr_def py_strip_def py_isspace_def amount_numeric_string_def amount_sign_text_def
  strip_currency_def starts_with_minus_def currency_codes_def ci_letter_def search_number_def
  is_decimal_def decimal_value_def amount_convert_def py_Decimal_def digits_value_def
  quantize_cents_def rescale_cents_def dec_val_def

section \<open>Sign and stripping in normalize_amount\<close>








section \<open>A number after a decimal point\<close>

lemma search_number_after_point:
  assumes pre: "\<forall>c\<in>set pre. \<not> is_decimal c"
    and ds: "ds \<noteq> []" "\<forall>c\<in>set ds. is_decimal c"
    and rest: "rest = [] \<or> \<not> is_decimal (hd rest)"
  shows "search_number (pre @ 46 # ds @ rest) =
           Some (ds @ (case rest of [] \<Rightarrow> []
                       | c # r \<Rightarrow> if c = 46 then 46 # takeWhile is_decimal r else []))"
proof -
  obtain x xs where dsx: "ds = x # xs" using ds(1) by (cases ds) auto
  have x: "is_decimal x" using ds(2) dsx by simp
  have t: "dropWhile (\<lambda>c. \<not> is_decimal c) (pre @ 46 # ds @ rest) = ds @ rest"
  proof -
    have "dropWhile (\<lambda>c. \<not> is_decimal c) (pre @ 46 # ds @ rest) =
          dropWhile (\<lambda>c. \<not> is_decimal c) (46 # ds @ rest)"
      using pre by (simp add: dropWhile_append2)
    also have "\<dots> = ds @ rest" using x not_decimal_punct(3) by (simp add: dsx)
    finally show ?thesis .
  qed
  have ne: "ds @ rest \<noteq> []" using ds(1) by simp
  have tw: "takeWhile is_decimal (ds @ rest) = ds"
  proof (cases rest)
    case Nil
    then show ?thesis using ds(2) by (simp add: takeWhile_eq_all_conv)
  next
    case (Cons c r)
    with rest have "\<not> is_decimal c" by simp
    then show ?thesis using ds(2) Cons by (simp add: takeWhile_append2)
  qed
  have dw: "dropWhile is_decimal (ds @ rest) = rest"
  proof (cases rest)
    case Nil
    then show ?thesis using ds(2) by simp
  next
    case (Cons c r)
    with rest have "\<not> is_decimal c" by simp
    then show ?thesis using ds(2) Cons by (simp add: dropWhile_append2)
  qed
  have "search_number (pre @ 46 # ds @ rest) =
      Some (case rest of [] \<Rightarrow> ds
              | c # r' \<Rightarrow> if c = 46 then ds @ [46] @ takeWhile is_decimal r' else ds)"
    unfolding search_number_def Let_def t tw dw using ne by simp
  also have "\<dots> = Some (ds @ (case rest of [] \<Rightarrow> []
                       | c # r \<Rightarrow> if c = 46 then 46 # takeWhile is_decimal r else []))"
    by (cases rest) simp_all
  finally show ?thesis .
qed

lemma py_strip_id:
  assumes "t \<noteq> []" "\<not> py_isspace (hd t)" "\<not> py_isspace (last t)"
  shows "py_strip t = t"
proof -
  have a: "dropWhile py_isspace t = t" using assms(1,2) by (cases t) simp_all
  obtain y ys where r: "rev t = y # ys" using assms(1) by (cases "rev t") simp_all
  have "hd (rev t) = last t" using assms(1) by (simp add: hd_rev)
  with r have "y = last t" by simp
  with assms(3) have "\<not> py_isspace y" by simp
  then have "dropWhile py_isspace (y # ys) = y # ys" by simp
  then have b: "dropWhile py_isspace (rev t) = rev t" by (simp only: r)
  show ?thesis unfolding py_strip_def a b by simp
qed

lemma match_code_letter:
  assumes "p \<in> set currency_codes" "match_code p (c # cs)"
  shows "65 \<le> c"
proof -
  from assms(1) obtain l q where p: "p = l # q" and l: "65 \<le> l"
    by (auto simp: currency_codes_def ustr_def)
  from assms(2) p have "ci_letter l c" by simp
  with l show ?thesis by (auto simp: ci_letter_def)
qed

lemma sub_codes_no_letters:
  assumes "\<forall>c\<in>set t. c < 65"
  shows "sub_codes t = t"
  using assms
proof (induction t)
  case Nil
  show ?case by simp
next
  case (Cons c cs)
  have "\<not> list_ex (\<lambda>p. match_code p (c # cs)) currency_codes"
  proof
    assume "list_ex (\<lambda>p. match_code p (c # cs)) currency_codes"
    then obtain p where "p \<in> set currency_codes" "match_code p (c # cs)"
      unfolding list_ex_iff by blast
    then have "65 \<le> c" by (rule match_code_letter)
    with Cons.prems show False by simp
  qed
  then show ?case using Cons by simp
qed

lemma ascii_digit_decimal: "48 \<le> c \<Longrightarrow> c \<le> 57 \<Longrightarrow> is_decimal c"
  by (simp add: is_decimal_def decimal_value_def)

lemma unbounded_quantize_int:
  "unbounded_quantize \<lparr>dsign = sg, dcoeff = n, dexp = 0\<rparr> =
     \<lparr>dsign = sg, dcoeff = n * 100, dexp = - 2\<rparr>"
  by (simp add: unbounded_quantize_def rescale_cents_def)

lemma normalize_amount_point_digits:
  assumes ne: "ds \<noteq> []" and dig: "\<forall>c\<in>set ds. 48 \<le> c \<and> c \<le> 57"
  shows "normalize_amount (PyStr (46 # ds)) =
           (if 1000000 < digits_value ds then Inr None
            else Inr (Some \<lparr>dsign = False, dcoeff = digits_value ds * 100, dexp = - 2\<rparr>))"
proof -
  let ?t = "46 # ds"
  have dec: "\<forall>c\<in>set ds. is_decimal c" using dig ascii_digit_decimal by blast
  have lastd: "48 \<le> last ds \<and> last ds \<le> 57" using ne dig last_in_set by blast
  have st: "py_strip ?t = ?t"
  proof (rule py_strip_id)
    show "46 # ds \<noteq> []" by simp
    show "\<not> py_isspace (hd (46 # ds))" by (simp add: py_isspace_def)
    show "\<not> py_isspace (last (46 # ds))" using ne lastd by (auto simp: py_isspace_def)
  qed
  have f1: "filter (\<lambda>c. c \<noteq> 8364 \<and> c \<noteq> 165 \<and> c \<noteq> 163) ?t = ?t"
    using dig by (auto simp: filter_id_conv)
  have f2: "filter (\<lambda>c. c \<noteq> 36) ?t = ?t"
    using dig by (auto simp: filter_id_conv)
  have sc: "sub_codes ?t = ?t"
    by (rule sub_codes_no_letters) (use dig in auto)
  have cur: "strip_currency ?t = ?t"
    unfolding strip_currency_def f1 f2 sc st by (rule refl)
  have m45: "45 \<notin> set ?t" using dig by auto
  have f4: "filter (\<lambda>c. c \<noteq> 44) ?t = ?t"
    using dig by (auto simp: filter_id_conv)
  have ast: "amount_sign_text ?t = (False, ?t)"
    unfolding amount_sign_text_def Let_def cur using m45 f4
    by (simp add: starts_with_minus_def)
  have sn: "search_number ?t = Some ds"
    using search_number_after_point[of "[]" ds "[]"] ne dec by simp
  have ns: "amount_numeric_string (py_strip ?t) = Some ds"
    by (simp add: amount_numeric_string_def st ast sn)
  have d: "py_Decimal ds = Inr \<lparr>dsign = False, dcoeff = digits_value ds, dexp = 0\<rparr>"
    using py_Decimal_int[OF ne dec, of False] by simp
  from amount_range_general[rule_format, OF ns] d have
    r: "normalize_amount (PyStr ?t) =
      (if dec_val (unbounded_quantize \<lparr>dsign = False, dcoeff = digits_value ds, dexp = 0\<rparr>) < - 1000000 \<or>
          dec_val (unbounded_quantize \<lparr>dsign = False, dcoeff = digits_value ds, dexp = 0\<rparr>) > 1000000
       then Inr None
       else Inr (Some (unbounded_quantize \<lparr>dsign = False, dcoeff = digits_value ds, dexp = 0\<rparr>)))"
    by auto
  have oor: "(dec_val \<lparr>dsign = False, dcoeff = digits_value ds * 100, dexp = - 2\<rparr> < - 1000000 \<or>
      dec_val \<lparr>dsign = False, dcoeff = digits_value ds * 100, dexp = - 2\<rparr> > 1000000) \<longleftrightarrow>
      1000000 < digits_value ds"
    unfolding cents_out_of_range by simp
  show ?thesis unfolding r unbounded_quantize_int using oor by simp
qed

section \<open>The search for the best match\<close>














section \<open>Dates as strings\<close>

lemma decimal_value_ascii: "k < 10 \<Longrightarrow> decimal_value (48 + k) = Some k"
  by (simp add: decimal_value_def)

lemma nat_digits_ascii: "\<forall>c\<in>set (nat_digits n). 48 \<le> c \<and> c \<le> 57"
proof (induction n rule: nat_digits.induct)
  case (1 n)
  show ?case
  proof (cases "n < 10")
    case True
    then show ?thesis by (subst nat_digits.simps) simp
  next
    case False
    have "n mod 10 < 10" by simp
    then have "48 + n mod 10 \<le> 57" by linarith
    with False "1.IH" show ?thesis by (subst nat_digits.simps) simp
  qed
qed

lemma nat_digits_nonempty: "nat_digits n \<noteq> []"
  by (subst nat_digits.simps) simp

lemma zpad_ascii: "\<forall>c\<in>set (zpad w n). 48 \<le> c \<and> c \<le> 57"
  using nat_digits_ascii[of n] by (auto simp: zpad_def)

lemma zpad_nonempty: "zpad w n \<noteq> []"
  by (simp add: zpad_def nat_digits_nonempty)

lemma digits_value_snoc:
  "digits_value (ds @ [c]) =
     digits_value ds * 10 + (case decimal_value c of None \<Rightarrow> 0 | Some v \<Rightarrow> v)"
  by (simp add: digits_value_def)

lemma digits_value_nat_digits: "digits_value (nat_digits n) = n"
proof (induction n rule: nat_digits.induct)
  case (1 n)
  show ?case
  proof (cases "n < 10")
    case True
    then have "digits_value (nat_digits n) = digits_value ([] @ [48 + n])"
      by (subst nat_digits.simps) simp
    also have "\<dots> = n" unfolding digits_value_snoc using True
      by (simp add: decimal_value_ascii digits_value_def)
    finally show ?thesis .
  next
    case False
    have m: "n mod 10 < 10" by simp
    from False have "digits_value (nat_digits n) =
        digits_value (nat_digits (n div 10) @ [48 + n mod 10])"
      by (subst nat_digits.simps) simp
    also have "\<dots> = digits_value (nat_digits (n div 10)) * 10 + n mod 10"
      unfolding digits_value_snoc by (simp add: decimal_value_ascii[OF m])
    also have "\<dots> = n div 10 * 10 + n mod 10" using "1.IH"[OF False] by simp
    also have "\<dots> = n" by simp
    finally show ?thesis .
  qed
qed

lemma digits_value_zeros: "digits_value (replicate k 48 @ ds) = digits_value ds"
proof -
  have z: "decimal_value 48 = Some 0" using decimal_value_ascii[of 0] by simp
  have "foldl (\<lambda>acc c. acc * 10 + (case decimal_value c of None \<Rightarrow> 0 | Some v \<Rightarrow> v)) 0
          (replicate k 48) = 0"
    by (induction k) (simp_all add: z)
  then show ?thesis by (simp add: digits_value_def)
qed

lemma digits_value_zpad: "digits_value (zpad w n) = n"
  by (simp add: zpad_def digits_value_zeros digits_value_nat_digits)

lemma length_nat_digits_le: "0 < k \<Longrightarrow> n < 10 ^ k \<Longrightarrow> length (nat_digits n) \<le> k"
proof (induction k arbitrary: n)
  case 0
  then show ?case by simp
next
  case (Suc k)
  show ?case
  proof (cases "n < 10")
    case True
    then show ?thesis by (subst nat_digits.simps) simp
  next
    case False
    with Suc.prems have k: "0 < k" by (cases k) simp_all
    from Suc.prems have "n div 10 < 10 ^ k" by (simp add: less_mult_imp_div_less mult.commute)
    from Suc.IH[OF k this] False show ?thesis by (subst nat_digits.simps) simp
  qed
qed

lemma length_zpad: "0 < w \<Longrightarrow> n < 10 ^ w \<Longrightarrow> length (zpad w n) = w"
  using length_nat_digits_le[of w n] by (simp add: zpad_def)

lemma nat_digits_four:
  assumes "1000 \<le> y" "y < 10000"
  shows "nat_digits y = zpad 4 y"
proof -
  have le: "length (nat_digits y) \<le> 4" using length_nat_digits_le[of 4 y] assms(2) by simp
  have a: "\<not> y < 10" "\<not> y div 10 < 10" "\<not> y div 10 div 10 < 10" using assms(1) by simp_all
  have "nat_digits y = nat_digits (y div 10 div 10 div 10) @ [48 + y div 10 div 10 mod 10] @
      [48 + y div 10 mod 10] @ [48 + y mod 10]"
    using a by (simp add: nat_digits.simps[of y] nat_digits.simps[of "y div 10"]
        nat_digits.simps[of "y div 10 div 10"])
  then have "4 \<le> length (nat_digits y)"
    using nat_digits_nonempty[of "y div 10 div 10 div 10"]
    by (cases "nat_digits (y div 10 div 10 div 10)") simp_all
  with le have "length (nat_digits y) = 4" by simp
  then show ?thesis by (simp add: zpad_def)
qed

lemma ascii_digits_decimal:
  "\<forall>c\<in>set t. 48 \<le> c \<and> c \<le> 57 \<Longrightarrow> \<forall>c\<in>set t. is_decimal c"
  using ascii_digit_decimal by blast

lemma not_decimal_slash: "\<not> is_decimal 47"
  by (simp add: is_decimal_def decimal_value_def)

lemma split_numeric_tokens:
  assumes a: "a \<noteq> []" "\<forall>c\<in>set a. is_decimal c"
    and b: "b \<noteq> []" "\<forall>c\<in>set b. is_decimal c"
    and c: "c \<noteq> []" "\<forall>x\<in>set c. is_decimal x"
    and sep: "sep = 45 \<or> sep = 47"
  shows "split_numeric (a @ [sep] @ b @ [sep] @ c) = Some (a, sep, b, c)"
proof -
  have ns: "\<not> is_decimal sep" using sep not_decimal_punct(2) not_decimal_slash by auto
  have t1: "takeWhile is_decimal (a @ [sep] @ b @ [sep] @ c) = a"
    using a(2) ns by (simp add: takeWhile_append2)
  have d1: "dropWhile is_decimal (a @ [sep] @ b @ [sep] @ c) = sep # b @ [sep] @ c"
    using a(2) ns by (simp add: dropWhile_append2)
  have t2: "takeWhile is_decimal (b @ [sep] @ c) = b"
    using b(2) ns by (simp add: takeWhile_append2)
  have d2: "dropWhile is_decimal (b @ [sep] @ c) = sep # c"
    using b(2) ns by (simp add: dropWhile_append2)
  have la: "list_all is_decimal c" using c(2) by (simp add: list_all_iff)
  show ?thesis
    unfolding split_numeric_def Let_def t1 d1
    using a(1) b(1) c(1) la sep t2 d2 by auto
qed

lemma py_strip_digits_ends:
  assumes "t \<noteq> []" "48 \<le> hd t \<and> hd t \<le> 57" "48 \<le> last t \<and> last t \<le> 57"
  shows "py_strip t = t"
  by (rule py_strip_id) (use assms in \<open>auto simp: py_isspace_def\<close>)

lemma three_tokens_strip:
  assumes a: "a \<noteq> []" "\<forall>x\<in>set a. 48 \<le> x \<and> x \<le> 57"
    and c: "c \<noteq> []" "\<forall>x\<in>set c. 48 \<le> x \<and> x \<le> 57"
  shows "py_strip (a @ [sep] @ b @ [sep] @ c) = a @ [sep] @ b @ [sep] @ c"
proof (rule py_strip_digits_ends)
  show "a @ [sep] @ b @ [sep] @ c \<noteq> []" using a(1) by simp
  have "hd (a @ [sep] @ b @ [sep] @ c) = hd a" using a(1) by simp
  moreover have "hd a \<in> set a" using a(1) by simp
  ultimately show "48 \<le> hd (a @ [sep] @ b @ [sep] @ c) \<and> hd (a @ [sep] @ b @ [sep] @ c) \<le> 57"
    using a(2) by simp
  have "last (a @ [sep] @ b @ [sep] @ c) = last c" using c(1) by simp
  moreover have "last c \<in> set c" using c(1) by simp
  ultimately show "48 \<le> last (a @ [sep] @ b @ [sep] @ c) \<and> last (a @ [sep] @ b @ [sep] @ c) \<le> 57"
    using c(2) by simp
qed

lemma strftime_iso:
  assumes "1000 \<le> y" "y < 10000"
  shows "strftime_ymd \<lparr>year = y, month = m, day = d\<rparr> = iso_string y m d"
  by (simp add: strftime_ymd_def iso_string_def nat_digits_four[OF assms])

lemma normalize_date_built:
  assumes st: "py_strip t = t" and ne: "t \<noteq> []"
    and p: "parse t False = build_date y m d"
  shows "normalize_date parse cy (PyStr t) =
           (if valid_date y m d \<and> 1900 \<le> y \<and> y \<le> cy + 1
            then Inr (Some (iso_string y m d)) else Inr None)"
proof (cases "valid_date y m d")
  case False
  then have "parse t False = Inl ValueError" using p by (simp add: build_date_def)
  then show ?thesis using False st ne by (simp add: Let_def)
next
  case True
  then have pd: "parse t False = Inr \<lparr>year = y, month = m, day = d\<rparr>"
    using p by (simp add: build_date_def)
  from True have y: "y < 10000" by (simp add: valid_date_def)
  show ?thesis
  proof (cases "1900 \<le> y \<and> y \<le> cy + 1")
    case False
    then show ?thesis using True st ne pd by (auto simp: Let_def)
  next
    case r: True
    then have "1000 \<le> y" by simp
    from strftime_iso[OF this y] have "strftime_ymd \<lparr>year = y, month = m, day = d\<rparr> = iso_string y m d" .
    then show ?thesis using True r st ne pd by (auto simp: Let_def)
  qed
qed

lemma iso_string_tokens:
  "iso_string y m d = zpad 4 y @ [45] @ zpad 2 m @ [45] @ zpad 2 d"
  by (simp add: iso_string_def)

lemma iso_string_strip: "py_strip (iso_string y m d) = iso_string y m d"
  unfolding iso_string_tokens
  by (rule three_tokens_strip) (simp_all add: zpad_nonempty zpad_ascii)

lemma iso_string_nonempty: "iso_string y m d \<noteq> []"
  by (simp add: iso_string_def zpad_nonempty)

lemma dateutil_parse_iso:
  assumes "y < 10000" "m < 100" "d < 100"
  shows "dateutil_parse other (iso_string y m d) False = build_date y m d"
proof -
  have sp: "split_numeric (zpad 4 y @ [45] @ zpad 2 m @ [45] @ zpad 2 d) =
              Some (zpad 4 y, 45, zpad 2 m, zpad 2 d)"
    by (rule split_numeric_tokens)
       (simp_all add: zpad_nonempty ascii_digits_decimal[OF zpad_ascii])
  have l4: "length (zpad 4 y) = 4" using length_zpad[of 4 y] assms(1) by simp
  have l2: "length (zpad 2 m) = 2" using length_zpad[of 2 m] assms(2) by simp
  have l2': "length (zpad 2 d) = 2" using length_zpad[of 2 d] assms(3) by simp
  show ?thesis
    unfolding dateutil_parse_def iso_string_tokens sp
    by (simp add: l4 l2 l2' digits_value_zpad)
qed

lemma numeric_parse_iso: "parses_iso numeric_parse"
  unfolding parses_iso_def numeric_parse_def using dateutil_parse_iso by blast

lemma dateutil_parse_year_last:
  assumes ta: "ta \<noteq> []" "length ta \<le> 2" "\<forall>c\<in>set ta. 48 \<le> c \<and> c \<le> 57"
    and tb: "tb \<noteq> []" "length tb \<le> 2" "\<forall>c\<in>set tb. 48 \<le> c \<and> c \<le> 57"
    and ty: "length ty = 4" "\<forall>c\<in>set ty. 48 \<le> c \<and> c \<le> 57"
    and sep: "sep = 45 \<or> sep = 47"
  shows "dateutil_parse other (ta @ [sep] @ tb @ [sep] @ ty) False =
           (if 12 < digits_value ta
            then build_date (digits_value ty) (digits_value tb) (digits_value ta)
            else build_date (digits_value ty) (digits_value ta) (digits_value tb))"
proof -
  have yne: "ty \<noteq> []" using ty(1) by auto
  have sp: "split_numeric (ta @ [sep] @ tb @ [sep] @ ty) = Some (ta, sep, tb, ty)"
    by (rule split_numeric_tokens)
       (use ta tb ty yne sep ascii_digits_decimal in \<open>simp_all\<close>)
  show ?thesis
    unfolding dateutil_parse_def sp using ta(2) tb(2) ty(1) by simp
qed

text \<open>
  Claim C2. Whenever a number is found in the input, \<open>normalize_amount\<close> answers
  \<open>None\<close> exactly when the value rounded to two places is below -1,000,000.00 or
  above 1,000,000.00, and otherwise returns that rounded value; this includes the
  inputs on which \<open>quantize\<close> raises for lack of precision, whose value is out of
  range. Exactly 1,000,000.00 and -1,000,000.00 are accepted, one cent beyond is not,
  and \<open>$999999999.99\<close> is rejected.
\<close>

theorem amount_range_policy:
  "(\<forall>s ns. amount_numeric_string (py_strip s) = Some ns \<longrightarrow>
      (\<exists>d. py_Decimal ns = Inr d \<and>
         normalize_amount (PyStr s) =
           (if dec_val (unbounded_quantize d) < - 1000000 \<or> dec_val (unbounded_quantize d) > 1000000
            then Inr None else Inr (Some (unbounded_quantize d))))) \<and>
   normalize_amount (PyStr (ustr ''1000000.00'')) =
     Inr (Some \<lparr>dsign = False, dcoeff = 100000000, dexp = - 2\<rparr>) \<and>
   normalize_amount (PyStr (ustr ''-1000000.00'')) =
     Inr (Some \<lparr>dsign = True, dcoeff = 100000000, dexp = - 2\<rparr>) \<and>
   normalize_amount (PyStr (ustr ''1000000.01'')) = Inr None \<and>
   normalize_amount (PyStr (ustr ''-1000000.01'')) = Inr None \<and>
   normalize_amount (PyStr (ustr ''$999999999.99'')) = Inr None"
proof (intro conjI)
  show "\<forall>s ns. amount_numeric_string (py_strip s) = Some ns \<longrightarrow>
      (\<exists>d. py_Decimal ns = Inr d \<and>
         normalize_amount (PyStr s) =
           (if dec_val (unbounded_quantize d) < - 1000000 \<or> dec_val (unbounded_quantize d) > 1000000
            then Inr None else Inr (Some (unbounded_quantize d))))"
    by (rule amount_range_general)
  show "normalize_amount (PyStr (ustr ''1000000.00'')) =
     Inr (Some \<lparr>dsign = False, dcoeff = 100000000, dexp = - 2\<rparr>)"
    by (simp add: amount_eval)
  show "normalize_amount (PyStr (ustr ''-1000000.00'')) =
     Inr (Some \<lparr>dsign = True, dcoeff = 100000000, dexp = - 2\<rparr>)"
    by (simp add: amount_eval)
  show "normalize_amount (PyStr (ustr ''1000000.01'')) = Inr None"
    by (simp add: amount_eval)
  show "normalize_amount (PyStr (ustr ''-1000000.01'')) = Inr None"
    by (simp add: amount_eval)
  show "normalize_amount (PyStr (ustr ''$999999999.99'')) = Inr None"
    by (simp add: amount_eval)
qed

theorem amount_range_policy_witness:
  "amount_numeric_string (py_strip (ustr ''12.345'')) = Some (ustr ''12.345'') \<and>
   py_Decimal (ustr ''12.345'') = Inr \<lparr>dsign = False, dcoeff = 12345, dexp = - 3\<rparr> \<and>
   normalize_amount (PyStr (ustr ''12.345'')) =
     Inr (Some (unbounded_quantize \<lparr>dsign = False, dcoeff = 12345, dexp = - 3\<rparr>)) \<and>
   unbounded_quantize \<lparr>dsign = False, dcoeff = 12345, dexp = - 3\<rparr> =
     \<lparr>dsign = False, dcoeff = 1234, dexp = - 2\<rparr>"
proof -
  have ns: "amount_numeric_string (py_strip (ustr ''12.345'')) = Some (ustr ''12.345'')"
    by (simp add: amount_eval)
  have d: "py_Decimal (ustr ''12.345'') = Inr \<lparr>dsign = False, dcoeff = 12345, dexp = - 3\<rparr>"
    by (simp add: amount_eval)
  have q: "unbounded_quantize \<lparr>dsign = False, dcoeff = 12345, dexp = - 3\<rparr> =
     \<lparr>dsign = False, dcoeff = 1234, dexp = - 2\<rparr>"
    by (simp add: unbounded_quantize_def rescale_cents_def)
  from amount_range_policy ns obtain d' where
    d': "py_Decimal (ustr ''12.345'') = Inr d'" and
    r: "normalize_amount (PyStr (ustr ''12.345'')) =
           (if dec_val (unbounded_quantize d') < - 1000000 \<or> dec_val (unbounded_quantize d') > 1000000
            then Inr None else Inr (Some (unbounded_quantize d')))"
    by blast
  from d d' have e: "d' = \<lparr>dsign = False, dcoeff = 12345, dexp = - 3\<rparr>" by simp
  have "normalize_amount (PyStr (ustr ''12.345'')) =
     Inr (Some (unbounded_quantize \<lparr>dsign = False, dcoeff = 12345, dexp = - 3\<rparr>))"
    using r unfolding e q by (simp add: dec_val_def)
  with ns d q show ?thesis by (intro conjI)
qed

section \<open>Evaluation of the examples\<close>

lemmas date_eval =
  ustr_def py_strip_def py_isspace_def numeric_parse_def dateutil_parse_def split_numeric_def
  is_decimal_def decimal_value_def digits_value_def build_date_def valid_date_def
  days_in_month_def leap_year_def strftime_ymd_def zpad_def nat_digits.simps

lemmas merchant_eval =
  ustr_def py_strip_def py_isspace_def comparison_name_def lower_ascii_def ascii_upper_def
  ascii_lower_def ascii_alnum_def MERCHANT_CATEGORIES_def FUZZY_MATCH_THRESHOLD_def
  infix_ratio_def py_title_def is_cased_def lower_at_def title_of_def ascii_unidata_def

lemma ex_date_iso:
  "normalize_date numeric_parse 2026 (PyStr (ustr ''2023-01-15'')) = Inr (Some (ustr ''2023-01-15''))"
  by (simp add: date_eval)

lemma ex_merchant_starbucks:
  "normalize_merchant ascii_unidata infix_ratio (PyStr (ustr ''STARBUCKS #1234'')) =
     Inr (ustr ''Starbucks'', ustr ''starbucks'')"
  by (simp add: merchant_eval)

lemma ex_amount_550:
  "normalize_amount (PyStr (ustr ''$5.50'')) = Inr (Some \<lparr>dsign = False, dcoeff = 550, dexp = - 2\<rparr>)"
  by (simp add: amount_eval)


section \<open>The normalizers return\<close>

lemma normalize_amount_returns: "\<exists>r. normalize_amount v = Inr r"
proof (cases v)
  case (PyStr s)
  show ?thesis
  proof (cases "amount_numeric_string (py_strip s)")
    case None
    then show ?thesis using PyStr by (simp add: Let_def)
  next
    case (Some ns)
    from amount_range_general[rule_format, OF Some] obtain d where
      "normalize_amount (PyStr s) =
           (if dec_val (unbounded_quantize d) < - 1000000 \<or> dec_val (unbounded_quantize d) > 1000000
            then Inr None else Inr (Some (unbounded_quantize d)))" by blast
    then show ?thesis using PyStr
      by (cases "dec_val (unbounded_quantize d) < - 1000000 \<or>
                 dec_val (unbounded_quantize d) > 1000000") simp_all
  qed
qed simp_all

lemma normalize_merchant_returns: "\<exists>r. normalize_merchant U ratio v = Inr r"
proof (cases v)
  case (PyStr s)
  obtain bc bs bn where
    "scan_categories U ratio (comparison_name (py_strip s)) MERCHANT_CATEGORIES (None, 0, None) =
       (bc, bs, bn)"
    by (rule prod_cases3)
  then show ?thesis using PyStr by (simp add: Let_def)
qed simp_all

lemma normalize_date_returns:
  assumes "raises_documented parse"
  shows "\<exists>r. normalize_date parse cy v = Inr r"
proof (cases v)
  case (PyStr s)
  show ?thesis
  proof (cases "parse (py_strip s) False")
    case (Inl e)
    with assms have "e = ValueError \<or> e = OverflowError" by (auto simp: raises_documented_def)
    with Inl PyStr show ?thesis by (auto simp: Let_def)
  next
    case (Inr d)
    with PyStr show ?thesis by (simp add: Let_def)
  qed
qed simp_all

lemma build_date_raises: "build_date y m d = Inl e \<Longrightarrow> e = ValueError"
  by (simp add: build_date_def split: if_splits)

lemma numeric_parse_raises: "raises_documented numeric_parse"
  unfolding raises_documented_def numeric_parse_def dateutil_parse_def
  by (auto split: option.splits prod.splits if_splits dest: build_date_raises)


section \<open>The claims\<close>

text \<open>
  Claim C1. In the record that \<open>normalize_transaction\<close> returns, \<open>is_valid\<close> holds
  exactly when \<open>normalized_date\<close> and \<open>normalized_amount\<close> are both present, and
  \<open>errors\<close> is empty exactly when \<open>is_valid\<close> holds. The function returns a record
  for every three arguments when the date parser raises nothing but its documented
  exceptions.
\<close>

theorem transaction_invariants:
  "(\<forall>r. normalize_transaction U parse ratio cy date merchant amount = Inr r \<longrightarrow>
      (is_valid r \<longleftrightarrow> normalized_date r \<noteq> None \<and> normalized_amount r \<noteq> None) \<and>
      (errors r = [] \<longleftrightarrow> is_valid r)) \<and>
   (raises_documented parse \<longrightarrow>
      (\<exists>r. normalize_transaction U parse ratio cy date merchant amount = Inr r))"
proof (intro conjI allI impI)
  fix r
  assume r: "normalize_transaction U parse ratio cy date merchant amount = Inr r"
  from r obtain nd where nd: "normalize_date parse cy date = Inr nd"
    by (cases "normalize_date parse cy date") (simp_all add: normalize_transaction_def)
  obtain mn cat where nm: "normalize_merchant U ratio merchant = Inr (mn, cat)"
    using normalize_merchant_returns[of U ratio merchant] by auto
  obtain na where na: "normalize_amount amount = Inr na"
    using normalize_amount_returns[of amount] by auto
  from r nd nm na have iv: "is_valid r = (if na = None then False else if nd = None then False else True)"
    and er: "errors r = (if na = None
         then (if nd = None then [ustr ''Invalid date: '' @ py_format date] else []) @
              [ustr ''Invalid amount: '' @ py_format amount]
         else (if nd = None then [ustr ''Invalid date: '' @ py_format date] else []))"
    and d: "normalized_date r = nd" and a: "normalized_amount r = na"
    by (auto simp: normalize_transaction_def Let_def)
  show "is_valid r \<longleftrightarrow> normalized_date r \<noteq> None \<and> normalized_amount r \<noteq> None"
    using iv d a by auto
  show "errors r = [] \<longleftrightarrow> is_valid r"
    using iv er by auto
next
  assume p: "raises_documented parse"
  obtain nd where nd: "normalize_date parse cy date = Inr nd"
    using normalize_date_returns[OF p, of cy date] by auto
  obtain mn cat where nm: "normalize_merchant U ratio merchant = Inr (mn, cat)"
    using normalize_merchant_returns[of U ratio merchant] by auto
  obtain na where na: "normalize_amount amount = Inr na"
    using normalize_amount_returns[of amount] by auto
  show "\<exists>r. normalize_transaction U parse ratio cy date merchant amount = Inr r"
    using nd nm na by (simp add: normalize_transaction_def Let_def)
qed

theorem transaction_invariants_witness:
  "raises_documented numeric_parse \<and>
   (\<exists>r. normalize_transaction ascii_unidata numeric_parse infix_ratio 2026
           (PyStr (ustr ''2023-01-15'')) (PyStr (ustr ''STARBUCKS #1234''))
           (PyStr (ustr ''$5.50'')) = Inr r \<and>
         is_valid r \<and> errors r = [] \<and>
         normalized_date r = Some (ustr ''2023-01-15'') \<and>
         normalized_amount r = Some \<lparr>dsign = False, dcoeff = 550, dexp = - 2\<rparr>) \<and>
   (\<exists>r. normalize_transaction ascii_unidata numeric_parse infix_ratio 2026
           (PyStr (ustr ''2023-02-29'')) (PyStr (ustr ''STARBUCKS #1234''))
           (PyStr (ustr ''Invalid'')) = Inr r \<and>
         \<not> is_valid r \<and> length (errors r) = 2 \<and>
         normalized_date r = None \<and> normalized_amount r = None)"
proof (intro conjI)
  show p: "raises_documented numeric_parse" by (rule numeric_parse_raises)
  note t = transaction_invariants[of ascii_unidata numeric_parse infix_ratio 2026]
  have nd2: "normalize_date numeric_parse 2026 (PyStr (ustr ''2023-02-29'')) = Inr None"
    by (simp add: date_eval)
  have na2: "normalize_amount (PyStr (ustr ''Invalid'')) = Inr None"
    by (simp add: amount_eval)
  {
    from t[of "PyStr (ustr ''2023-01-15'')" "PyStr (ustr ''STARBUCKS #1234'')" "PyStr (ustr ''$5.50'')"] p
    obtain r where r: "normalize_transaction ascii_unidata numeric_parse infix_ratio 2026
           (PyStr (ustr ''2023-01-15'')) (PyStr (ustr ''STARBUCKS #1234''))
           (PyStr (ustr ''$5.50'')) = Inr r"
      and iv: "is_valid r \<longleftrightarrow> normalized_date r \<noteq> None \<and> normalized_amount r \<noteq> None"
      and er: "errors r = [] \<longleftrightarrow> is_valid r"
      by blast
    from r have "normalized_date r = Some (ustr ''2023-01-15'')"
      and "normalized_amount r = Some \<lparr>dsign = False, dcoeff = 550, dexp = - 2\<rparr>"
      unfolding normalize_transaction_def ex_date_iso ex_merchant_starbucks ex_amount_550
      by auto
    with r iv er
    show "\<exists>r. normalize_transaction ascii_unidata numeric_parse infix_ratio 2026
           (PyStr (ustr ''2023-01-15'')) (PyStr (ustr ''STARBUCKS #1234''))
           (PyStr (ustr ''$5.50'')) = Inr r \<and>
         is_valid r \<and> errors r = [] \<and>
         normalized_date r = Some (ustr ''2023-01-15'') \<and>
         normalized_amount r = Some \<lparr>dsign = False, dcoeff = 550, dexp = - 2\<rparr>"
      by auto
  }
  {
    from t[of "PyStr (ustr ''2023-02-29'')" "PyStr (ustr ''STARBUCKS #1234'')" "PyStr (ustr ''Invalid'')"] p
    obtain r where r: "normalize_transaction ascii_unidata numeric_parse infix_ratio 2026
           (PyStr (ustr ''2023-02-29'')) (PyStr (ustr ''STARBUCKS #1234''))
           (PyStr (ustr ''Invalid'')) = Inr r"
      and iv: "is_valid r \<longleftrightarrow> normalized_date r \<noteq> None \<and> normalized_amount r \<noteq> None"
      and er: "errors r = [] \<longleftrightarrow> is_valid r"
      by blast
    from r have "normalized_date r = None" and "normalized_amount r = None"
      and "length (errors r) = 2"
      unfolding normalize_transaction_def nd2 ex_merchant_starbucks na2
      by auto
    with r iv
    show "\<exists>r. normalize_transaction ascii_unidata numeric_parse infix_ratio 2026
           (PyStr (ustr ''2023-02-29'')) (PyStr (ustr ''STARBUCKS #1234''))
           (PyStr (ustr ''Invalid'')) = Inr r \<and>
         \<not> is_valid r \<and> length (errors r) = 2 \<and>
         normalized_date r = None \<and> normalized_amount r = None"
      by auto
  }
qed

section \<open>Properties of the floating point operations\<close>

lemma bit_length_upper: "n < 2 ^ bit_length n"
proof (induction n rule: bit_length.induct)
  case (1 n)
  show ?case
  proof (cases "n = 0")
    case True
    then show ?thesis by (subst bit_length.simps) simp
  next
    case False
    then have "n div 2 < 2 ^ bit_length (n div 2)" by (rule 1)
    then have "n < 2 * 2 ^ bit_length (n div 2)" by linarith
    with False show ?thesis by (subst bit_length.simps) simp
  qed
qed

lemma bit_length_lower: "0 < n \<Longrightarrow> 2 ^ (bit_length n - 1) \<le> n"
proof (induction n rule: bit_length.induct)
  case (1 n)
  then have n: "n \<noteq> 0" by simp
  have b: "bit_length n = Suc (bit_length (n div 2))"
    using n by (subst bit_length.simps) simp
  show ?case
  proof (cases "n div 2 = 0")
    case True
    then have "bit_length (n div 2) = 0" by (subst bit_length.simps) simp
    with b 1(2) show ?thesis by simp
  next
    case False
    then have ih: "2 ^ (bit_length (n div 2) - 1) \<le> n div 2" using 1(1)[OF n] by simp
    from False have "bit_length (n div 2) \<noteq> 0" by (subst bit_length.simps) simp
    then obtain k where k: "bit_length (n div 2) = Suc k" by (cases "bit_length (n div 2)") auto
    from ih k have "2 * 2 ^ k \<le> n" by simp
    with b k show ?thesis by simp
  qed
qed

lemma floor_log2_lower:
  assumes "0 < x"
  shows "2 powi (floor_log2 x) \<le> x"
proof (cases "1 \<le> x")
  case True
  define n where "n = nat \<lfloor>x\<rfloor>"
  from True have f: "1 \<le> \<lfloor>x\<rfloor>" by linarith
  then have n: "0 < n" "of_nat n \<le> x" unfolding n_def by (simp_all add: of_nat_nat)
  have e: "floor_log2 x = int (bit_length n - 1)"
  proof -
    have "bit_length n \<noteq> 0" using n(1) by (subst bit_length.simps) simp
    then show ?thesis using True by (simp add: floor_log2_def n_def)
  qed
  have "(2::nat) ^ (bit_length n - 1) \<le> n" using n(1) by (rule bit_length_lower)
  then have "(of_nat ((2::nat) ^ (bit_length n - 1)) :: rat) \<le> of_nat n" by (simp only: of_nat_le_iff)
  then have "(2::rat) ^ (bit_length n - 1) \<le> of_nat n" by simp
  with n(2) show ?thesis unfolding e power_int_of_nat by linarith
next
  case False
  define N where "N = \<lceil>1 / x\<rceil>"
  define k where "k = bit_length (nat (N - 1))"
  from False assms have y: "1 < 1 / x" by simp
  have e: "floor_log2 x = - int k" using False by (simp add: floor_log2_def N_def k_def)
  from y have N2: "2 \<le> N" unfolding N_def by (simp add: le_ceiling_iff)
  have "nat (N - 1) < 2 ^ k" unfolding k_def by (rule bit_length_upper)
  then have "int (nat (N - 1)) < int (2 ^ k)" by (simp only: of_nat_less_iff)
  then have "N - 1 < 2 ^ k" using N2 by simp
  then have "N \<le> 2 ^ k" by simp
  then have "(of_int N :: rat) \<le> of_int (2 ^ k)" by (simp only: of_int_le_iff)
  moreover have "(of_int (2 ^ k) :: rat) = 2 ^ k" by simp
  moreover have "1 / x \<le> of_int N" unfolding N_def by (rule le_of_int_ceiling)
  ultimately have "1 / x \<le> 2 ^ k" by linarith
  then have "1 \<le> 2 ^ k * x" using assms by (simp add: field_simps)
  then have "1 / 2 ^ k \<le> x" by (simp add: field_simps)
  then show ?thesis unfolding e by (simp add: power_int_minus_divide)
qed

lemma floor_log2_upper:
  assumes "0 < x"
  shows "x < 2 powi (floor_log2 x + 1)"
proof (cases "1 \<le> x")
  case True
  define n where "n = nat \<lfloor>x\<rfloor>"
  from True have f: "1 \<le> \<lfloor>x\<rfloor>" by linarith
  then have n: "0 < n" unfolding n_def by simp
  have xn: "x < of_nat n + 1" using f unfolding n_def by (simp add: of_nat_nat) linarith
  have bl: "bit_length n \<noteq> 0" using n by (subst bit_length.simps) simp
  then have e: "floor_log2 x + 1 = int (bit_length n)"
    using True by (simp add: floor_log2_def n_def)
  have "n < 2 ^ bit_length n" by (rule bit_length_upper)
  then have "n + 1 \<le> 2 ^ bit_length n" by simp
  then have "(of_nat (n + 1) :: rat) \<le> of_nat (2 ^ bit_length n)" by (simp only: of_nat_le_iff)
  then have "(of_nat n :: rat) + 1 \<le> 2 ^ bit_length n" by simp
  with xn show ?thesis unfolding e power_int_of_nat by linarith
next
  case False
  define N where "N = \<lceil>1 / x\<rceil>"
  define k where "k = bit_length (nat (N - 1))"
  from False assms have y: "1 < 1 / x" by simp
  then have N2: "2 \<le> N" unfolding N_def by (simp add: le_ceiling_iff)
  then have pos: "0 < nat (N - 1)" by simp
  have e: "floor_log2 x = - int k" using False by (simp add: floor_log2_def N_def k_def)
  have "k \<noteq> 0" unfolding k_def using pos by (subst bit_length.simps) simp
  then obtain j where j: "k = Suc j" by (cases k) auto
  have "2 ^ (k - 1) \<le> nat (N - 1)" unfolding k_def using pos by (rule bit_length_lower)
  then have "int (2 ^ j) \<le> int (nat (N - 1))" unfolding j by (simp only: of_nat_le_iff diff_Suc_1)
  then have "2 ^ j \<le> N - 1" using N2 by simp
  then have "(of_int (2 ^ j) :: rat) \<le> of_int (N - 1)" by (simp only: of_int_le_iff)
  moreover have "of_int (N - 1) < 1 / x" unfolding N_def
    using ceiling_correct[of "1 / x"] by simp
  ultimately have "2 ^ j < 1 / x" by simp
  then have "2 ^ j * x < 1" using assms by (simp add: field_simps)
  then have "x < 1 / 2 ^ j" by (simp add: field_simps)
  moreover have "floor_log2 x + 1 = - int j" unfolding e j by simp
  ultimately show ?thesis by (simp add: power_int_minus_divide)
qed

lemma round_half_even_error: "\<bar>of_int (round_half_even x) - x\<bar> \<le> 1 / 2"
proof -
  define f where "f = \<lfloor>x\<rfloor>"
  define d where "d = x - of_int f"
  have d: "0 \<le> d" "d < 1" unfolding d_def f_def by linarith+
  have x: "x = of_int f + d" unfolding d_def by simp
  have r: "round_half_even x =
      (if d < 1 / 2 then f else if 1 / 2 < d then f + 1 else if even f then f else f + 1)"
    unfolding round_half_even_def Let_def f_def[symmetric] d_def[symmetric] ..
  consider "d < 1 / 2" | "1 / 2 < d" | "d = 1 / 2" by linarith
  then show ?thesis
  proof cases
    case 1
    then show ?thesis unfolding r using d by (simp add: x)
  next
    case 2
    then show ?thesis unfolding r using d by (simp add: x)
  next
    case 3
    then show ?thesis unfolding r by (simp add: x)
  qed
qed

lemma round_half_even_le:
  assumes "x \<le> of_int c"
  shows "round_half_even x \<le> c"
proof (cases "x = of_int c")
  case True
  then show ?thesis by (simp add: round_half_even_def)
next
  case False
  with assms have "x < of_int c" by simp
  then have "\<lfloor>x\<rfloor> < c" by (simp add: floor_less_iff)
  then show ?thesis unfolding round_half_even_def Let_def by auto
qed

lemma round_half_even_ge:
  assumes "of_int c \<le> x"
  shows "c \<le> round_half_even x"
proof -
  from assms have "c \<le> \<lfloor>x\<rfloor>" by (simp add: le_floor_iff)
  then show ?thesis unfolding round_half_even_def Let_def by auto
qed

lemma floor_log2_less:
  assumes "0 < x" "x < 2 powi n"
  shows "floor_log2 x < n"
proof (rule ccontr)
  assume "\<not> floor_log2 x < n"
  then have "n \<le> floor_log2 x" by simp
  then have "(2::rat) powi n \<le> 2 powi (floor_log2 x)" by (rule power_int_increasing) simp
  with floor_log2_lower[OF assms(1)] assms(2) show False by linarith
qed

lemma floor_log2_ge:
  assumes "0 < x" "2 powi n \<le> x"
  shows "n \<le> floor_log2 x"
proof (rule ccontr)
  assume "\<not> n \<le> floor_log2 x"
  then have "floor_log2 x + 1 \<le> n" by simp
  then have "(2::rat) powi (floor_log2 x + 1) \<le> 2 powi n" by (rule power_int_increasing) simp
  with floor_log2_upper[OF assms(1)] assms(2) show False by linarith
qed

lemma round_b64_bounded:
  fixes c :: nat
  assumes x: "0 < x" and c: "x \<le> of_nat c" "c < 2 ^ 53"
  shows "\<exists>r. round_b64 x = Finite r \<and> 0 \<le> r \<and> r \<le> of_nat c \<and>
             \<bar>r - x\<bar> \<le> 2 powi (max (floor_log2 x) (- 1022) - 52) / 2"
proof -
  define E where "E = max (floor_log2 x) (- 1022)"
  define u :: rat where "u = 2 powi (E - 52)"
  define m where "m = round_half_even (x / u)"
  have "(of_nat c :: rat) < of_nat (2 ^ 53)" using c(2) by (simp only: of_nat_less_iff)
  then have c53: "(of_nat c :: rat) < 2 ^ 53" by simp
  have "x < 2 powi 53" using c(1) c53 by simp
  then have "floor_log2 x < 53" using x by (intro floor_log2_less)
  then have E52: "E \<le> 52" unfolding E_def by simp
  define k where "k = nat (52 - E)"
  have Ek: "E - 52 = - int k" unfolding k_def using E52 by simp
  have u: "u = 1 / 2 ^ k" unfolding u_def Ek by (simp add: power_int_minus_divide)
  have upos: "0 < u" unfolding u by simp
  have xu: "x / u = x * 2 ^ k" unfolding u by simp
  have "x * 2 ^ k \<le> of_nat c * 2 ^ k" using c(1) by simp
  also have "\<dots> = of_int (int (c * 2 ^ k))" by simp
  finally have "m \<le> int (c * 2 ^ k)" unfolding m_def xu by (rule round_half_even_le)
  then have "(of_int m :: rat) \<le> of_int (int (c * 2 ^ k))" by (simp only: of_int_le_iff)
  then have mle: "(of_int m :: rat) \<le> of_nat c * 2 ^ k" by simp
  have "(of_int 0 :: rat) \<le> x / u" using x upos by simp
  then have m0: "0 \<le> m" unfolding m_def by (rule round_half_even_ge)
  have r0: "0 \<le> of_int m * u" using m0 upos by simp
  have "of_int m * u \<le> (of_nat c * 2 ^ k) * u" using mle upos by (simp only: mult_le_cancel_right_pos)
  then have rc: "of_int m * u \<le> of_nat c" unfolding u by simp
  have "\<bar>of_int m - x / u\<bar> \<le> 1 / 2" unfolding m_def by (rule round_half_even_error)
  then have "\<bar>of_int m - x / u\<bar> * u \<le> 1 / 2 * u" using upos by (simp only: mult_le_cancel_right_pos)
  moreover have "\<bar>of_int m - x / u\<bar> * u = \<bar>of_int m * u - x\<bar>"
  proof -
    have "\<bar>of_int m - x / u\<bar> * u = \<bar>(of_int m - x / u) * u\<bar>" using upos by (simp add: abs_mult)
    also have "(of_int m - x / u) * u = of_int m * u - x" using upos by (simp add: field_simps)
    finally show ?thesis .
  qed
  ultimately have err: "\<bar>of_int m * u - x\<bar> \<le> u / 2" by simp
  have "(2::rat) ^ 53 \<le> 2 ^ 1024" by (rule power_increasing) simp_all
  then have fin: "\<not> 2 powi 1024 \<le> of_int m * u" using rc c53 by (simp only: power_int_numeral)
  have "round_b64 x = Finite (of_int m * u)"
    using x fin unfolding round_b64_def Let_def
    by (simp add: E_def[symmetric] u_def[symmetric] m_def[symmetric])
  with r0 rc err show ?thesis unfolding u_def E_def by blast
qed

lemma round_b64_relative:
  fixes c :: nat
  assumes x: "2 powi (- 1022) \<le> x" and c: "x \<le> of_nat c" "c < 2 ^ 53"
  shows "\<exists>r. round_b64 x = Finite r \<and> \<bar>r - x\<bar> * 2 ^ 53 \<le> x"
proof -
  have pos: "0 < x" using x zero_less_power_int[of "2::rat" "- 1022"] by linarith
  have e: "- 1022 \<le> floor_log2 x" using pos x by (rule floor_log2_ge)
  then have m: "max (floor_log2 x) (- 1022) = floor_log2 x" by simp
  from round_b64_bounded[OF pos c] obtain r where
    r: "round_b64 x = Finite r" "\<bar>r - x\<bar> \<le> 2 powi (floor_log2 x - 52) / 2"
    unfolding m by blast
  have "(2::rat) powi (floor_log2 x - 52) = 2 powi (floor_log2 x) / 2 ^ 52"
    by (simp add: power_int_diff)
  also have "\<dots> \<le> x / 2 ^ 52" using floor_log2_lower[OF pos] by (simp add: divide_right_mono)
  finally have "2 powi (floor_log2 x - 52) / 2 \<le> x / 2 ^ 52 / 2" by (simp only: divide_right_mono)
  with r(2) have "\<bar>r - x\<bar> \<le> x / 2 ^ 52 / 2" by (rule order_trans)
  then have "\<bar>r - x\<bar> * 2 ^ 53 \<le> x" by (simp add: field_simps)
  with r(1) show ?thesis by blast
qed

lemma round_b64_zero: "round_b64 0 = Finite 0"
  by (simp add: round_b64_def)


text \<open>Evaluation on numerals.\<close>

lemma floor_rat_numeral: "\<lfloor>(numeral a :: rat) / numeral b\<rfloor> = numeral a div numeral b"
  using floor_divide_of_int_eq[of "numeral a" "numeral b", where ?'a = rat] by simp

lemma ceiling_rat_numeral: "\<lceil>(numeral a :: rat) / numeral b\<rceil> = - (- numeral a div numeral b)"
  using ceiling_divide_eq_div[of "numeral a" "numeral b", where ?'a = rat] by simp

lemma bit_length_0: "bit_length 0 = 0"
  by (subst bit_length.simps) simp

lemma bit_length_1: "bit_length 1 = 1"
  by (subst bit_length.simps) (simp add: bit_length_0)

lemma bit_length_Suc_0: "bit_length (Suc 0) = 1"
  using bit_length_1 by simp

lemma bit_length_Bit0: "bit_length (numeral (Num.Bit0 n)) = Suc (bit_length (numeral n))"
  by (subst bit_length.simps) simp

lemma bit_length_Bit1: "bit_length (numeral (Num.Bit1 n)) = Suc (bit_length (numeral n))"
  by (subst bit_length.simps) simp

lemma bit_length_One: "bit_length (numeral Num.One) = 1"
  using bit_length_1 by simp

lemmas float_eval = round_b64_def floor_log2_def round_half_even_def Let_def
  bit_length_0 bit_length_1 bit_length_Suc_0 bit_length_Bit0 bit_length_Bit1 bit_length_One
  floor_rat_numeral ceiling_rat_numeral

lemma round_b64_100: "round_b64 100 = Finite 100"
  by (simp add: float_eval)

lemma int_to_float_100: "int_to_float 100 = Inr (Finite 100)"
  by (simp add: int_to_float_def round_b64_100)

lemma rate_bounds:
  fixes v t :: nat
  assumes t: "0 < t" and v: "v \<le> t"
  shows "\<exists>q r. round_b64 (of_nat v / of_nat t) = Finite q \<and> 0 \<le> q \<and> q \<le> 1 \<and>
               round_b64 (q * 100) = Finite r \<and> 0 \<le> r \<and> r \<le> 100"
proof (cases "v = 0")
  case True
  then show ?thesis by (simp add: round_b64_zero)
next
  case False
  define x :: rat where "x = of_nat v / of_nat t"
  have pos: "0 < x" unfolding x_def using False t by simp
  have "(of_nat v :: rat) \<le> of_nat t" using v by (simp only: of_nat_le_iff)
  then have le: "x \<le> of_nat 1" unfolding x_def using t by (simp add: field_simps)
  have "(1::nat) < 2 ^ 53" by simp
  from round_b64_bounded[OF pos le this] obtain q where
    q: "round_b64 x = Finite q" "0 \<le> q" "q \<le> 1" by auto
  show ?thesis
  proof (cases "q = 0")
    case True
    with q show ?thesis unfolding x_def by (simp add: round_b64_zero)
  next
    case False
    with q(2) have p: "0 < q * 100" by simp
    have l: "q * 100 \<le> of_nat 100" using q(3) by simp
    have "(100::nat) < 2 ^ 53" by simp
    from round_b64_bounded[OF p l this] obtain r where
      "round_b64 (q * 100) = Finite r" "0 \<le> r" "r \<le> 100" by auto
    with q show ?thesis unfolding x_def by blast
  qed
qed

lemma rate_error:
  fixes v t :: nat
  assumes t: "0 < t" "t < 2 ^ 1022" and v: "v \<le> t"
    and q: "round_b64 (of_nat v / of_nat t) = Finite q"
    and r: "round_b64 (q * 100) = Finite r"
  shows "\<bar>r - of_nat v / of_nat t * 100\<bar> * 2 ^ 51 \<le> of_nat v / of_nat t * 100"
proof (cases "v = 0")
  case True
  with q have "q = 0" by (simp add: round_b64_zero)
  with r have "r = 0" by (simp add: round_b64_zero)
  with True show ?thesis by simp
next
  case False
  define x :: rat where "x = of_nat v / of_nat t"
  have tpos: "(0::rat) < of_nat t" using t(1) by simp
  have "(of_nat t :: rat) < of_nat (2 ^ 1022)" using t(2) by (simp only: of_nat_less_iff)
  then have t2: "(of_nat t :: rat) < 2 ^ 1022" by simp
  have "(1::rat) \<le> of_nat v" using False by (simp add: Suc_le_eq)
  then have "1 / of_nat t \<le> x" unfolding x_def using tpos by (simp add: divide_right_mono)
  moreover have "1 / 2 ^ 1022 < 1 / (of_nat t :: rat)" using t2 tpos by (simp add: field_simps)
  ultimately have low: "1 / 2 ^ 1022 < x" by linarith
  then have xl: "2 powi (- 1022) \<le> x" by (simp add: power_int_minus_divide)
  have pos: "0 < x" using low by (simp add: less_trans[rotated])
  have "(of_nat v :: rat) \<le> of_nat t" using v by (simp only: of_nat_le_iff)
  then have le: "x \<le> of_nat 1" unfolding x_def using tpos by (simp add: field_simps)
  have "(1::nat) < 2 ^ 53" by simp
  from round_b64_relative[OF xl le this] q have eq: "\<bar>q - x\<bar> * 2 ^ 53 \<le> x"
    unfolding x_def by auto
  have qx: "x \<le> 2 * q"
  proof -
    have "\<bar>q - x\<bar> * 2 \<le> \<bar>q - x\<bar> * 2 ^ 53" by simp
    then have "\<bar>q - x\<bar> * 2 \<le> x" using eq by (rule order_trans)
    then show ?thesis by (simp add: abs_if split: if_splits)
  qed
  have "1 / 2 ^ 1022 \<le> q * 100" using low qx pos by linarith
  then have ql: "2 powi (- 1022) \<le> q * 100" by (simp add: power_int_minus_divide)
  have q1: "q \<le> 1"
    using rate_bounds[OF t(1) v] q by auto
  then have l: "q * 100 \<le> of_nat 100" by simp
  have "(100::nat) < 2 ^ 53" by simp
  from round_b64_relative[OF ql l this] r have er: "\<bar>r - q * 100\<bar> * 2 ^ 53 \<le> q * 100"
    by auto
  define a where "a = \<bar>q - x\<bar>"
  define b where "b = \<bar>r - q * 100\<bar>"
  have "r - x * 100 = (r - q * 100) + 100 * (q - x)" by simp
  also have "\<bar>\<dots>\<bar> \<le> \<bar>r - q * 100\<bar> + \<bar>100 * (q - x)\<bar>" by (rule abs_triangle_ineq)
  also have "\<bar>100 * (q - x)\<bar> = 100 * \<bar>q - x\<bar>" by (simp only: abs_mult abs_numeral)
  finally have tri: "\<bar>r - x * 100\<bar> \<le> b + 100 * a" unfolding a_def b_def .
  have p53: "(2::rat) ^ 53 = 4 * 2 ^ 51" by simp
  have a: "a * 4 * 2 ^ 51 \<le> x" using eq unfolding a_def p53 by simp
  have b: "b * 4 * 2 ^ 51 \<le> q * 100" using er unfolding b_def p53 by simp
  have "q - x \<le> \<bar>q - x\<bar>" by simp
  then have qa: "q \<le> x + a" unfolding a_def by linarith
  have a0: "0 \<le> a" unfolding a_def by simp
  have "a \<le> a * 4 * 2 ^ 51"
  proof -
    have "(1::rat) \<le> 4 * 2 ^ 51" by simp
    then have "a * 1 \<le> a * (4 * 2 ^ 51)" using a0 by (rule mult_left_mono)
    then show ?thesis by simp
  qed
  with a have ax: "a \<le> x" by linarith
  define P :: rat where "P = 2 ^ 51"
  define A where "A = a * P"
  define B where "B = b * P"
  have "A * 4 \<le> x" "B * 4 \<le> q * 100"
    using a b unfolding P_def[symmetric] A_def B_def by (simp_all add: mult.commute mult.left_commute)
  then have "B + 100 * A \<le> x * 100" using qa ax pos by linarith
  then have "(b + 100 * a) * P \<le> x * 100" unfolding A_def B_def by (simp add: algebra_simps)
  moreover have "\<bar>r - x * 100\<bar> * P \<le> (b + 100 * a) * P"
    using tri unfolding P_def by (simp add: mult_right_mono)
  ultimately show ?thesis unfolding x_def P_def by linarith
qed

section \<open>Properties of get_normalization_stats\<close>

lemma filter_category_absent:
  "c \<notin> category ` set ts \<Longrightarrow> filter (\<lambda>t. category t = c) ts = []"
  by (induction ts) auto

lemma count_categories_lookup:
  "count_categories cats ts c =
     (if c \<in> category ` set ts
      then Some ((case cats c of None \<Rightarrow> 0 | Some n \<Rightarrow> n) + length (filter (\<lambda>t. category t = c) ts))
      else cats c)"
proof (induction ts arbitrary: cats)
  case Nil
  show ?case by simp
next
  case (Cons t ts)
  show ?case
  proof (cases "category t = c")
    case True
    then show ?thesis by (simp add: Cons.IH filter_category_absent)
  next
    case False
    then show ?thesis by (simp add: Cons.IH)
  qed
qed

lemma count_categories_total:
  "(\<Sum>c\<in>category ` set ts. the (count_categories Map.empty ts c)) = length ts"
proof -
  have "(\<Sum>c\<in>category ` set ts. the (count_categories Map.empty ts c)) =
        (\<Sum>c\<in>category ` set ts. length (filter (\<lambda>t. category t = c) ts))"
    by (rule sum.cong) (simp_all add: count_categories_lookup)
  also have "\<dots> = length ts"
  proof (induction ts)
    case Nil
    show ?case by simp
  next
    case (Cons t ts)
    let ?A = "category ` set ts"
    have fin: "finite ?A" by simp
    have step: "(\<Sum>c\<in>insert (category t) ?A. length (filter (\<lambda>u. category u = c) (t # ts))) =
          (\<Sum>c\<in>insert (category t) ?A. (if c = category t then 1 else 0) +
              length (filter (\<lambda>u. category u = c) ts))"
      by (rule sum.cong) auto
    also have "\<dots> = (\<Sum>c\<in>insert (category t) ?A. (if c = category t then 1 else 0)) +
          (\<Sum>c\<in>insert (category t) ?A. length (filter (\<lambda>u. category u = c) ts))"
      by (simp add: sum.distrib)
    also have "(\<Sum>c\<in>insert (category t) ?A. (if c = category t then 1 else 0 :: nat)) = 1"
      using fin by (simp add: sum.delta)
    also have "(\<Sum>c\<in>insert (category t) ?A. length (filter (\<lambda>u. category u = c) ts)) =
          (\<Sum>c\<in>?A. length (filter (\<lambda>u. category u = c) ts))"
    proof (cases "category t \<in> ?A")
      case True
      then show ?thesis by (simp add: insert_absorb)
    next
      case False
      then have "filter (\<lambda>u. category u = category t) ts = []"
        by (rule filter_category_absent)
      with False fin show ?thesis by simp
    qed
    finally show ?case using Cons.IH by simp
  qed
  finally show ?thesis .
qed

text \<open>
  The guard \<open>total > 0\<close> keeps the division from a zero divisor, and the quotient of
  two counts is at most 1, so neither the division nor the conversion of 100
  raises: the function returns a dictionary for every list.
\<close>

lemma get_normalization_stats_returns:
  "get_normalization_stats ts =
     Inr \<lparr>total_transactions = length ts,
          valid_transactions = length (filter is_valid ts),
          invalid_transactions = int (length ts) - int (length (filter is_valid ts)),
          success_rate =
            (if length ts > 0
             then FloatNum (float_mul
                    (round_b64 (of_nat (length (filter is_valid ts)) / of_nat (length ts)))
                    (Finite 100))
             else IntNum 0),
          date_errors = length (filter (\<lambda>t. normalized_date t = None) ts),
          amount_errors = length (filter (\<lambda>t. normalized_amount t = None) ts),
          categories = count_categories Map.empty ts\<rparr>"
proof (cases "ts = []")
  case True
  then show ?thesis by (simp add: get_normalization_stats_def)
next
  case False
  then have t: "0 < length ts" by simp
  have v: "length (filter is_valid ts) \<le> length ts" by (rule length_filter_le)
  from rate_bounds[OF t v] obtain q where
    q: "round_b64 (of_nat (length (filter is_valid ts)) / of_nat (length ts)) = Finite q"
    by blast
  have d: "int_truediv (int (length (filter is_valid ts))) (int (length ts)) = Inr (Finite q)"
    using t q by (simp add: int_truediv_def)
  have m: "float_mul_int (Finite q) 100 = Inr (float_mul (Finite q) (Finite 100))"
    by (simp add: float_mul_int_def int_to_float_100)
  show ?thesis
    using t by (simp add: get_normalization_stats_def Let_def d q m)
qed








text \<open>
  Claim C4. For every zero-padded string \<open>YYYY-MM-DD\<close>, \<open>normalize_date\<close> returns
  the string unchanged when it is a date of the calendar (the day valid for the month
  and the year, leap years respected) with its year from 1900 to the current year
  plus one, and \<open>None\<close> otherwise: \<open>2023-02-29\<close>, \<open>2023-13-01\<close> and \<open>2023-01-32\<close>
  give \<open>None\<close>, \<open>2024-02-29\<close> gives itself. The parser is assumed to read the ISO
  form as year, month and day and to reject what is not in the calendar.
\<close>

theorem iso_identity:
  assumes "parses_iso parse"
  shows "(\<forall>y m d. y < 10000 \<and> m < 100 \<and> d < 100 \<longrightarrow>
            normalize_date parse cy (PyStr (iso_string y m d)) =
              (if valid_date y m d \<and> 1900 \<le> y \<and> y \<le> cy + 1
               then Inr (Some (iso_string y m d)) else Inr None)) \<and>
         normalize_date parse cy (PyStr (ustr ''2023-02-29'')) = Inr None \<and>
         (2023 \<le> cy \<longrightarrow>
            normalize_date parse cy (PyStr (ustr ''2024-02-29'')) =
              Inr (Some (ustr ''2024-02-29''))) \<and>
         normalize_date parse cy (PyStr (ustr ''2023-13-01'')) = Inr None \<and>
         normalize_date parse cy (PyStr (ustr ''2023-01-32'')) = Inr None"
proof -
  have gen: "normalize_date parse cy (PyStr (iso_string y m d)) =
              (if valid_date y m d \<and> 1900 \<le> y \<and> y \<le> cy + 1
               then Inr (Some (iso_string y m d)) else Inr None)"
    if "y < 10000 \<and> m < 100 \<and> d < 100" for y m d
  proof (rule normalize_date_built)
    show "py_strip (iso_string y m d) = iso_string y m d" by (rule iso_string_strip)
    show "iso_string y m d \<noteq> []" by (rule iso_string_nonempty)
    show "parse (iso_string y m d) False = build_date y m d"
      using assms that by (simp add: parses_iso_def)
  qed
  have e1: "ustr ''2023-02-29'' = iso_string 2023 2 29"
    and e2: "ustr ''2024-02-29'' = iso_string 2024 2 29"
    and e3: "ustr ''2023-13-01'' = iso_string 2023 13 1"
    and e4: "ustr ''2023-01-32'' = iso_string 2023 1 32"
    by (simp_all add: ustr_def iso_string_def zpad_def nat_digits.simps)
  have v1: "\<not> valid_date 2023 2 29" and v2: "valid_date 2024 2 29"
    and v3: "\<not> valid_date 2023 13 1" and v4: "\<not> valid_date 2023 1 32"
    by (simp_all add: valid_date_def days_in_month_def leap_year_def)
  show ?thesis
  proof (intro conjI allI impI)
    fix y m d :: nat
    assume "y < 10000 \<and> m < 100 \<and> d < 100"
    then show "normalize_date parse cy (PyStr (iso_string y m d)) =
              (if valid_date y m d \<and> 1900 \<le> y \<and> y \<le> cy + 1
               then Inr (Some (iso_string y m d)) else Inr None)"
      by (rule gen)
  next
    show "normalize_date parse cy (PyStr (ustr ''2023-02-29'')) = Inr None"
      unfolding e1 using gen[of 2023 2 29] v1 by simp
  next
    assume "2023 \<le> cy"
    then show "normalize_date parse cy (PyStr (ustr ''2024-02-29'')) =
              Inr (Some (ustr ''2024-02-29''))"
      unfolding e2 using gen[of 2024 2 29] v2 by simp
  next
    show "normalize_date parse cy (PyStr (ustr ''2023-13-01'')) = Inr None"
      unfolding e3 using gen[of 2023 13 1] v3 by simp
  next
    show "normalize_date parse cy (PyStr (ustr ''2023-01-32'')) = Inr None"
      unfolding e4 using gen[of 2023 1 32] v4 by simp
  qed
qed

theorem iso_identity_witness:
  "parses_iso numeric_parse \<and>
   normalize_date numeric_parse 2026 (PyStr (iso_string 2025 6 15)) =
     Inr (Some (ustr ''2025-06-15'')) \<and>
   iso_string 2025 6 15 = ustr ''2025-06-15'' \<and>
   normalize_date numeric_parse 2026 (PyStr (ustr ''2024-02-29'')) =
     Inr (Some (ustr ''2024-02-29'')) \<and>
   normalize_date numeric_parse 2026 (PyStr (ustr ''2023-02-29'')) = Inr None \<and>
   normalize_date numeric_parse 2026 (PyStr (iso_string 2028 1 1)) = Inr None \<and>
   normalize_date numeric_parse 2026 (PyStr (iso_string 1899 12 31)) = Inr None"
proof -
  note t = iso_identity[OF numeric_parse_iso, of 2026]
  note g = t[THEN conjunct1, rule_format]
  have e: "iso_string 2025 6 15 = ustr ''2025-06-15''"
    by (simp add: ustr_def iso_string_def zpad_def nat_digits.simps)
  have a: "normalize_date numeric_parse 2026 (PyStr (iso_string 2025 6 15)) =
     Inr (Some (ustr ''2025-06-15''))"
    using g[of 2025 6 15] e by (simp add: valid_date_def days_in_month_def)
  have b: "normalize_date numeric_parse 2026 (PyStr (ustr ''2024-02-29'')) =
     Inr (Some (ustr ''2024-02-29''))"
    using t[THEN conjunct2, THEN conjunct2, THEN conjunct1] by simp
  have c: "normalize_date numeric_parse 2026 (PyStr (ustr ''2023-02-29'')) = Inr None"
    using t[THEN conjunct2, THEN conjunct1] .
  have d: "normalize_date numeric_parse 2026 (PyStr (iso_string 2028 1 1)) = Inr None"
    using g[of 2028 1 1] by simp
  have f: "normalize_date numeric_parse 2026 (PyStr (iso_string 1899 12 31)) = Inr None"
    using g[of 1899 12 31] by simp
  from numeric_parse_iso a e b c d f show ?thesis by (intro conjI)
qed

text \<open>
  Claim C5, against the parser modelled from the specification. A numeric date of
  two numbers of one or two digits and a year of four digits, separated by \<open>/\<close> or
  \<open>-\<close>, is read month first whenever the first number is at most 12, which covers
  every date that both readings make valid: \<open>01/15/2023\<close> is 2023-01-15 and
  \<open>03/04/2023\<close> is 2023-03-04. It is read day first only when the first number is
  above 12 and so cannot be a month: \<open>15/01/2023\<close> is 2023-01-15. The result is
  \<open>None\<close> when the reading taken is not a date of the calendar or its year is out of
  range.
\<close>

theorem month_first_policy:
  "(\<forall>ta tb ty sep.
      ta \<noteq> [] \<and> length ta \<le> 2 \<and> (\<forall>c\<in>set ta. 48 \<le> c \<and> c \<le> 57) \<and>
      tb \<noteq> [] \<and> length tb \<le> 2 \<and> (\<forall>c\<in>set tb. 48 \<le> c \<and> c \<le> 57) \<and>
      length ty = 4 \<and> (\<forall>c\<in>set ty. 48 \<le> c \<and> c \<le> 57) \<and> (sep = 45 \<or> sep = 47) \<longrightarrow>
      normalize_date (dateutil_parse other) cy (PyStr (ta @ [sep] @ tb @ [sep] @ ty)) =
        (if 12 < digits_value ta
         then (if valid_date (digits_value ty) (digits_value tb) (digits_value ta) \<and>
                  1900 \<le> digits_value ty \<and> digits_value ty \<le> cy + 1
               then Inr (Some (iso_string (digits_value ty) (digits_value tb) (digits_value ta)))
               else Inr None)
         else (if valid_date (digits_value ty) (digits_value ta) (digits_value tb) \<and>
                  1900 \<le> digits_value ty \<and> digits_value ty \<le> cy + 1
               then Inr (Some (iso_string (digits_value ty) (digits_value ta) (digits_value tb)))
               else Inr None))) \<and>
   (2022 \<le> cy \<longrightarrow>
      normalize_date (dateutil_parse other) cy (PyStr (ustr ''01/15/2023'')) =
        Inr (Some (ustr ''2023-01-15'')) \<and>
      normalize_date (dateutil_parse other) cy (PyStr (ustr ''03/04/2023'')) =
        Inr (Some (ustr ''2023-03-04'')) \<and>
      normalize_date (dateutil_parse other) cy (PyStr (ustr ''15/01/2023'')) =
        Inr (Some (ustr ''2023-01-15'')) \<and>
      normalize_date (dateutil_parse other) cy (PyStr (ustr ''15-01-2023'')) =
        Inr (Some (ustr ''2023-01-15'')))"
proof -
  have gen: "normalize_date (dateutil_parse other) cy (PyStr (ta @ [sep] @ tb @ [sep] @ ty)) =
        (if 12 < digits_value ta
         then (if valid_date (digits_value ty) (digits_value tb) (digits_value ta) \<and>
                  1900 \<le> digits_value ty \<and> digits_value ty \<le> cy + 1
               then Inr (Some (iso_string (digits_value ty) (digits_value tb) (digits_value ta)))
               else Inr None)
         else (if valid_date (digits_value ty) (digits_value ta) (digits_value tb) \<and>
                  1900 \<le> digits_value ty \<and> digits_value ty \<le> cy + 1
               then Inr (Some (iso_string (digits_value ty) (digits_value ta) (digits_value tb)))
               else Inr None))"
    if h: "ta \<noteq> [] \<and> length ta \<le> 2 \<and> (\<forall>c\<in>set ta. 48 \<le> c \<and> c \<le> 57) \<and>
      tb \<noteq> [] \<and> length tb \<le> 2 \<and> (\<forall>c\<in>set tb. 48 \<le> c \<and> c \<le> 57) \<and>
      length ty = 4 \<and> (\<forall>c\<in>set ty. 48 \<le> c \<and> c \<le> 57) \<and> (sep = 45 \<or> sep = 47)"
    for ta tb ty sep
  proof -
    let ?t = "ta @ [sep] @ tb @ [sep] @ ty"
    from h have yne: "ty \<noteq> []" by auto
    have st: "py_strip ?t = ?t"
      by (rule three_tokens_strip) (use h yne in \<open>simp_all\<close>)
    have ne: "?t \<noteq> []" using h by simp
    have p: "dateutil_parse other ?t False =
           (if 12 < digits_value ta
            then build_date (digits_value ty) (digits_value tb) (digits_value ta)
            else build_date (digits_value ty) (digits_value ta) (digits_value tb))"
      by (rule dateutil_parse_year_last) (use h in \<open>simp_all\<close>)
    show ?thesis
    proof (cases "12 < digits_value ta")
      case True
      with p have "dateutil_parse other ?t False =
          build_date (digits_value ty) (digits_value tb) (digits_value ta)" by simp
      from normalize_date_built[where parse = "dateutil_parse other" and cy = cy, OF st ne this] True show ?thesis by simp
    next
      case False
      with p have "dateutil_parse other ?t False =
          build_date (digits_value ty) (digits_value ta) (digits_value tb)" by simp
      from normalize_date_built[where parse = "dateutil_parse other" and cy = cy, OF st ne this] False show ?thesis by simp
    qed
  qed
  have dv: "digits_value [48, 49] = 1" "digits_value [49, 53] = 15" "digits_value [48, 51] = 3"
    "digits_value [48, 52] = 4" "digits_value [50, 48, 50, 51] = 2023"
    by (simp_all add: digits_value_def decimal_value_def)
  have iso: "iso_string 2023 1 15 = ustr ''2023-01-15''" "iso_string 2023 3 4 = ustr ''2023-03-04''"
    by (simp_all add: ustr_def iso_string_def zpad_def nat_digits.simps)
  have vd: "valid_date 2023 1 15" "valid_date 2023 3 4"
    by (simp_all add: valid_date_def days_in_month_def)
  have x1: "normalize_date (dateutil_parse other) cy (PyStr (ustr ''01/15/2023'')) =
        Inr (Some (ustr ''2023-01-15''))" if "2022 \<le> cy"
  proof -
    have s: "ustr ''01/15/2023'' = [48, 49] @ [47] @ [49, 53] @ [47] @ [50, 48, 50, 51]"
      by (simp add: ustr_def)
    have "normalize_date (dateutil_parse other) cy (PyStr (ustr ''01/15/2023'')) =
          normalize_date (dateutil_parse other) cy
            (PyStr ([48, 49] @ [47] @ [49, 53] @ [47] @ [50, 48, 50, 51]))"
      by (simp only: s)
    also have "\<dots> =
        (if 12 < digits_value [48, 49]
         then (if valid_date (digits_value [50, 48, 50, 51]) (digits_value [49, 53]) (digits_value [48, 49]) \<and>
                  1900 \<le> digits_value [50, 48, 50, 51] \<and> digits_value [50, 48, 50, 51] \<le> cy + 1
               then Inr (Some (iso_string (digits_value [50, 48, 50, 51]) (digits_value [49, 53])
                                 (digits_value [48, 49])))
               else Inr None)
         else (if valid_date (digits_value [50, 48, 50, 51]) (digits_value [48, 49]) (digits_value [49, 53]) \<and>
                  1900 \<le> digits_value [50, 48, 50, 51] \<and> digits_value [50, 48, 50, 51] \<le> cy + 1
               then Inr (Some (iso_string (digits_value [50, 48, 50, 51]) (digits_value [48, 49])
                                 (digits_value [49, 53])))
               else Inr None))"
      by (rule gen) simp
    also have "\<dots> = Inr (Some (ustr ''2023-01-15''))"
      using that vd iso by (simp add: dv)
    finally show ?thesis .
  qed
  have x2: "normalize_date (dateutil_parse other) cy (PyStr (ustr ''03/04/2023'')) =
        Inr (Some (ustr ''2023-03-04''))" if "2022 \<le> cy"
  proof -
    have s: "ustr ''03/04/2023'' = [48, 51] @ [47] @ [48, 52] @ [47] @ [50, 48, 50, 51]"
      by (simp add: ustr_def)
    have "normalize_date (dateutil_parse other) cy (PyStr (ustr ''03/04/2023'')) =
          normalize_date (dateutil_parse other) cy
            (PyStr ([48, 51] @ [47] @ [48, 52] @ [47] @ [50, 48, 50, 51]))"
      by (simp only: s)
    also have "\<dots> =
        (if 12 < digits_value [48, 51]
         then (if valid_date (digits_value [50, 48, 50, 51]) (digits_value [48, 52]) (digits_value [48, 51]) \<and>
                  1900 \<le> digits_value [50, 48, 50, 51] \<and> digits_value [50, 48, 50, 51] \<le> cy + 1
               then Inr (Some (iso_string (digits_value [50, 48, 50, 51]) (digits_value [48, 52])
                                 (digits_value [48, 51])))
               else Inr None)
         else (if valid_date (digits_value [50, 48, 50, 51]) (digits_value [48, 51]) (digits_value [48, 52]) \<and>
                  1900 \<le> digits_value [50, 48, 50, 51] \<and> digits_value [50, 48, 50, 51] \<le> cy + 1
               then Inr (Some (iso_string (digits_value [50, 48, 50, 51]) (digits_value [48, 51])
                                 (digits_value [48, 52])))
               else Inr None))"
      by (rule gen) simp
    also have "\<dots> = Inr (Some (ustr ''2023-03-04''))"
      using that vd iso by (simp add: dv)
    finally show ?thesis .
  qed
  have x3: "normalize_date (dateutil_parse other) cy (PyStr (ustr ''15/01/2023'')) =
        Inr (Some (ustr ''2023-01-15''))" if "2022 \<le> cy"
  proof -
    have s: "ustr ''15/01/2023'' = [49, 53] @ [47] @ [48, 49] @ [47] @ [50, 48, 50, 51]"
      by (simp add: ustr_def)
    have "normalize_date (dateutil_parse other) cy (PyStr (ustr ''15/01/2023'')) =
          normalize_date (dateutil_parse other) cy
            (PyStr ([49, 53] @ [47] @ [48, 49] @ [47] @ [50, 48, 50, 51]))"
      by (simp only: s)
    also have "\<dots> =
        (if 12 < digits_value [49, 53]
         then (if valid_date (digits_value [50, 48, 50, 51]) (digits_value [48, 49]) (digits_value [49, 53]) \<and>
                  1900 \<le> digits_value [50, 48, 50, 51] \<and> digits_value [50, 48, 50, 51] \<le> cy + 1
               then Inr (Some (iso_string (digits_value [50, 48, 50, 51]) (digits_value [48, 49])
                                 (digits_value [49, 53])))
               else Inr None)
         else (if valid_date (digits_value [50, 48, 50, 51]) (digits_value [49, 53]) (digits_value [48, 49]) \<and>
                  1900 \<le> digits_value [50, 48, 50, 51] \<and> digits_value [50, 48, 50, 51] \<le> cy + 1
               then Inr (Some (iso_string (digits_value [50, 48, 50, 51]) (digits_value [49, 53])
                                 (digits_value [48, 49])))
               else Inr None))"
      by (rule gen) simp
    also have "\<dots> = Inr (Some (ustr ''2023-01-15''))"
      using that vd iso by (simp add: dv)
    finally show ?thesis .
  qed
  have x4: "normalize_date (dateutil_parse other) cy (PyStr (ustr ''15-01-2023'')) =
        Inr (Some (ustr ''2023-01-15''))" if "2022 \<le> cy"
  proof -
    have s: "ustr ''15-01-2023'' = [49, 53] @ [45] @ [48, 49] @ [45] @ [50, 48, 50, 51]"
      by (simp add: ustr_def)
    have "normalize_date (dateutil_parse other) cy (PyStr (ustr ''15-01-2023'')) =
          normalize_date (dateutil_parse other) cy
            (PyStr ([49, 53] @ [45] @ [48, 49] @ [45] @ [50, 48, 50, 51]))"
      by (simp only: s)
    also have "\<dots> =
        (if 12 < digits_value [49, 53]
         then (if valid_date (digits_value [50, 48, 50, 51]) (digits_value [48, 49]) (digits_value [49, 53]) \<and>
                  1900 \<le> digits_value [50, 48, 50, 51] \<and> digits_value [50, 48, 50, 51] \<le> cy + 1
               then Inr (Some (iso_string (digits_value [50, 48, 50, 51]) (digits_value [48, 49])
                                 (digits_value [49, 53])))
               else Inr None)
         else (if valid_date (digits_value [50, 48, 50, 51]) (digits_value [49, 53]) (digits_value [48, 49]) \<and>
                  1900 \<le> digits_value [50, 48, 50, 51] \<and> digits_value [50, 48, 50, 51] \<le> cy + 1
               then Inr (Some (iso_string (digits_value [50, 48, 50, 51]) (digits_value [49, 53])
                                 (digits_value [48, 49])))
               else Inr None))"
      by (rule gen) simp
    also have "\<dots> = Inr (Some (ustr ''2023-01-15''))"
      using that vd iso by (simp add: dv)
    finally show ?thesis .
  qed
  show ?thesis
  proof (intro conjI allI impI)
    fix ta tb ty :: ustring and sep :: nat
    assume "ta \<noteq> [] \<and> length ta \<le> 2 \<and> (\<forall>c\<in>set ta. 48 \<le> c \<and> c \<le> 57) \<and>
      tb \<noteq> [] \<and> length tb \<le> 2 \<and> (\<forall>c\<in>set tb. 48 \<le> c \<and> c \<le> 57) \<and>
      length ty = 4 \<and> (\<forall>c\<in>set ty. 48 \<le> c \<and> c \<le> 57) \<and> (sep = 45 \<or> sep = 47)"
    then show "normalize_date (dateutil_parse other) cy (PyStr (ta @ [sep] @ tb @ [sep] @ ty)) =
        (if 12 < digits_value ta
         then (if valid_date (digits_value ty) (digits_value tb) (digits_value ta) \<and>
                  1900 \<le> digits_value ty \<and> digits_value ty \<le> cy + 1
               then Inr (Some (iso_string (digits_value ty) (digits_value tb) (digits_value ta)))
               else Inr None)
         else (if valid_date (digits_value ty) (digits_value ta) (digits_value tb) \<and>
                  1900 \<le> digits_value ty \<and> digits_value ty \<le> cy + 1
               then Inr (Some (iso_string (digits_value ty) (digits_value ta) (digits_value tb)))
               else Inr None))"
      by (rule gen)
  qed (use x1 x2 x3 x4 in \<open>simp_all\<close>)
qed

theorem month_first_policy_witness:
  "normalize_date numeric_parse 2026 (PyStr (ustr ''05/06/2024'')) =
     Inr (Some (ustr ''2024-05-06'')) \<and>
   valid_date 2024 5 6 \<and> valid_date 2024 6 5 \<and>
   normalize_date numeric_parse 2026 (PyStr (ustr ''31/12/2023'')) =
     Inr (Some (ustr ''2023-12-31'')) \<and>
   normalize_date numeric_parse 2026 (PyStr (ustr ''02/30/2023'')) = Inr None \<and>
   normalize_date numeric_parse 2026 (PyStr (ustr ''15/01/2023'')) =
     Inr (Some (ustr ''2023-01-15''))"
proof -
  note t = month_first_policy[of "\<lambda>s dayfirst. Inl ValueError" 2026, folded numeric_parse_def]
  note g = t[THEN conjunct1, rule_format]
  have dv: "digits_value [48, 53] = 5" "digits_value [48, 54] = 6" "digits_value [51, 49] = 31"
    "digits_value [49, 50] = 12" "digits_value [48, 50] = 2" "digits_value [51, 48] = 30"
    "digits_value [50, 48, 50, 52] = 2024" "digits_value [50, 48, 50, 51] = 2023"
    by (simp_all add: digits_value_def decimal_value_def)
  have iso: "iso_string 2024 5 6 = ustr ''2024-05-06''" "iso_string 2023 12 31 = ustr ''2023-12-31''"
    by (simp_all add: ustr_def iso_string_def zpad_def nat_digits.simps)
  have vd: "valid_date 2024 5 6" "valid_date 2024 6 5" "valid_date 2023 12 31"
    "\<not> valid_date 2023 2 30"
    by (simp_all add: valid_date_def days_in_month_def leap_year_def)
  have a: "normalize_date numeric_parse 2026 (PyStr (ustr ''05/06/2024'')) = Inr (Some (ustr ''2024-05-06''))"
  proof -
    have s: "ustr ''05/06/2024'' = [48, 53] @ [47] @ [48, 54] @ [47] @ [50, 48, 50, 52]"
      by (simp add: ustr_def)
    have "normalize_date numeric_parse 2026 (PyStr (ustr ''05/06/2024'')) =
          normalize_date numeric_parse 2026 (PyStr ([48, 53] @ [47] @ [48, 54] @ [47] @ [50, 48, 50, 52]))"
      by (simp only: s)
    also have "\<dots> =
        (if 12 < digits_value [48, 53]
         then (if valid_date (digits_value [50, 48, 50, 52]) (digits_value [48, 54]) (digits_value [48, 53]) \<and>
                  1900 \<le> digits_value [50, 48, 50, 52] \<and> digits_value [50, 48, 50, 52] \<le> 2026 + 1
               then Inr (Some (iso_string (digits_value [50, 48, 50, 52]) (digits_value [48, 54])
                                 (digits_value [48, 53])))
               else Inr None)
         else (if valid_date (digits_value [50, 48, 50, 52]) (digits_value [48, 53]) (digits_value [48, 54]) \<and>
                  1900 \<le> digits_value [50, 48, 50, 52] \<and> digits_value [50, 48, 50, 52] \<le> 2026 + 1
               then Inr (Some (iso_string (digits_value [50, 48, 50, 52]) (digits_value [48, 53])
                                 (digits_value [48, 54])))
               else Inr None))"
      by (rule g) simp
    also have "\<dots> = Inr (Some (ustr ''2024-05-06''))"
      using vd iso by (simp add: dv)
    finally show ?thesis .
  qed
  have b: "normalize_date numeric_parse 2026 (PyStr (ustr ''31/12/2023'')) = Inr (Some (ustr ''2023-12-31''))"
  proof -
    have s: "ustr ''31/12/2023'' = [51, 49] @ [47] @ [49, 50] @ [47] @ [50, 48, 50, 51]"
      by (simp add: ustr_def)
    have "normalize_date numeric_parse 2026 (PyStr (ustr ''31/12/2023'')) =
          normalize_date numeric_parse 2026 (PyStr ([51, 49] @ [47] @ [49, 50] @ [47] @ [50, 48, 50, 51]))"
      by (simp only: s)
    also have "\<dots> =
        (if 12 < digits_value [51, 49]
         then (if valid_date (digits_value [50, 48, 50, 51]) (digits_value [49, 50]) (digits_value [51, 49]) \<and>
                  1900 \<le> digits_value [50, 48, 50, 51] \<and> digits_value [50, 48, 50, 51] \<le> 2026 + 1
               then Inr (Some (iso_string (digits_value [50, 48, 50, 51]) (digits_value [49, 50])
                                 (digits_value [51, 49])))
               else Inr None)
         else (if valid_date (digits_value [50, 48, 50, 51]) (digits_value [51, 49]) (digits_value [49, 50]) \<and>
                  1900 \<le> digits_value [50, 48, 50, 51] \<and> digits_value [50, 48, 50, 51] \<le> 2026 + 1
               then Inr (Some (iso_string (digits_value [50, 48, 50, 51]) (digits_value [51, 49])
                                 (digits_value [49, 50])))
               else Inr None))"
      by (rule g) simp
    also have "\<dots> = Inr (Some (ustr ''2023-12-31''))"
      using vd iso by (simp add: dv)
    finally show ?thesis .
  qed
  have c: "normalize_date numeric_parse 2026 (PyStr (ustr ''02/30/2023'')) = Inr None"
  proof -
    have s: "ustr ''02/30/2023'' = [48, 50] @ [47] @ [51, 48] @ [47] @ [50, 48, 50, 51]"
      by (simp add: ustr_def)
    have "normalize_date numeric_parse 2026 (PyStr (ustr ''02/30/2023'')) =
          normalize_date numeric_parse 2026 (PyStr ([48, 50] @ [47] @ [51, 48] @ [47] @ [50, 48, 50, 51]))"
      by (simp only: s)
    also have "\<dots> =
        (if 12 < digits_value [48, 50]
         then (if valid_date (digits_value [50, 48, 50, 51]) (digits_value [51, 48]) (digits_value [48, 50]) \<and>
                  1900 \<le> digits_value [50, 48, 50, 51] \<and> digits_value [50, 48, 50, 51] \<le> 2026 + 1
               then Inr (Some (iso_string (digits_value [50, 48, 50, 51]) (digits_value [51, 48])
                                 (digits_value [48, 50])))
               else Inr None)
         else (if valid_date (digits_value [50, 48, 50, 51]) (digits_value [48, 50]) (digits_value [51, 48]) \<and>
                  1900 \<le> digits_value [50, 48, 50, 51] \<and> digits_value [50, 48, 50, 51] \<le> 2026 + 1
               then Inr (Some (iso_string (digits_value [50, 48, 50, 51]) (digits_value [48, 50])
                                 (digits_value [51, 48])))
               else Inr None))"
      by (rule g) simp
    also have "\<dots> = Inr None"
      using vd by (simp add: dv)
    finally show ?thesis .
  qed
  have d: "normalize_date numeric_parse 2026 (PyStr (ustr ''15/01/2023'')) =
     Inr (Some (ustr ''2023-01-15''))"
    using t[THEN conjunct2] by simp
  from a vd(1,2) b c d show ?thesis by (intro conjI)
qed

text \<open>
  Claim C10, as stated, at \<open>.50.25\<close>: the first digit run \<open>50\<close> follows a point,
  and the match is \<open>50.25\<close>, not the run alone; the result is 50.25, not 50.00.
\<close>

theorem point_run_counterexample:
  "search_number (ustr ''.50.25'') = Some (ustr ''50.25'') \<and>
   search_number (ustr ''.50.25'') \<noteq> Some (ustr ''50'') \<and>
   normalize_amount (PyStr (ustr ''.50.25'')) =
     Inr (Some \<lparr>dsign = False, dcoeff = 5025, dexp = - 2\<rparr>) \<and>
   normalize_amount (PyStr (ustr ''.50.25'')) \<noteq>
     Inr (Some \<lparr>dsign = False, dcoeff = 5000, dexp = - 2\<rparr>)"
  by (simp add: amount_eval)

text \<open>
  Claim C10, amended. When the first digit run of the text follows a decimal point,
  the match starts at the first digit of the run and never at the point. It is the
  run alone when no point follows the run, so a point followed by digits only gives
  the digits as a whole number (\<open>.50\<close> gives 50.00, not 0.50 and not \<open>None\<close>); when a
  point follows the run, the match goes on with that point and the digits after it
  (\<open>.50.25\<close> gives 50.25).
\<close>

theorem point_run_match:
  "(\<forall>pre ds rest.
      (\<forall>c\<in>set pre. \<not> is_decimal c) \<and> ds \<noteq> [] \<and> (\<forall>c\<in>set ds. is_decimal c) \<and>
      (rest = [] \<or> \<not> is_decimal (hd rest)) \<longrightarrow>
      search_number (pre @ 46 # ds @ rest) =
        Some (ds @ (case rest of [] \<Rightarrow> []
                    | c # r \<Rightarrow> if c = 46 then 46 # takeWhile is_decimal r else []))) \<and>
   (\<forall>ds. ds \<noteq> [] \<and> (\<forall>c\<in>set ds. 48 \<le> c \<and> c \<le> 57) \<longrightarrow>
      normalize_amount (PyStr (46 # ds)) =
        (if 1000000 < digits_value ds then Inr None
         else Inr (Some \<lparr>dsign = False, dcoeff = digits_value ds * 100, dexp = - 2\<rparr>))) \<and>
   normalize_amount (PyStr (ustr ''.50'')) =
     Inr (Some \<lparr>dsign = False, dcoeff = 5000, dexp = - 2\<rparr>) \<and>
   normalize_amount (PyStr (ustr ''.50.25'')) =
     Inr (Some \<lparr>dsign = False, dcoeff = 5025, dexp = - 2\<rparr>)"
proof (intro conjI allI impI)
  fix pre ds rest
  assume "(\<forall>c\<in>set pre. \<not> is_decimal c) \<and> ds \<noteq> [] \<and> (\<forall>c\<in>set ds. is_decimal c) \<and>
      (rest = [] \<or> \<not> is_decimal (hd rest))"
  then show "search_number (pre @ 46 # ds @ rest) =
        Some (ds @ (case rest of [] \<Rightarrow> []
                    | c # r \<Rightarrow> if c = 46 then 46 # takeWhile is_decimal r else []))"
    using search_number_after_point[of pre ds rest] by simp
next
  fix ds :: ustring
  assume "ds \<noteq> [] \<and> (\<forall>c\<in>set ds. 48 \<le> c \<and> c \<le> 57)"
  then show "normalize_amount (PyStr (46 # ds)) =
        (if 1000000 < digits_value ds then Inr None
         else Inr (Some \<lparr>dsign = False, dcoeff = digits_value ds * 100, dexp = - 2\<rparr>))"
    using normalize_amount_point_digits[of ds] by simp
qed (simp_all add: amount_eval)

theorem point_run_match_witness:
  "search_number (ustr ''x.50.25 y'') = Some (ustr ''50.25'') \<and>
   search_number (ustr ''x.50 y'') = Some (ustr ''50'') \<and>
   normalize_amount (PyStr (ustr ''.75'')) =
     Inr (Some \<lparr>dsign = False, dcoeff = 7500, dexp = - 2\<rparr>)"
proof -
  note t1 = point_run_match[THEN conjunct1, rule_format]
  note t2 = point_run_match[THEN conjunct2, THEN conjunct1, rule_format]
  have a: "search_number ([120] @ 46 # [53, 48] @ [46, 50, 53, 32, 121]) =
        Some ([53, 48] @ (case [46, 50, 53, 32, 121] of [] \<Rightarrow> []
                    | c # r \<Rightarrow> if c = 46 then 46 # takeWhile is_decimal r else []))"
    by (rule t1) (simp add: is_decimal_def decimal_value_def)
  have b: "search_number ([120] @ 46 # [53, 48] @ [32, 121]) =
        Some ([53, 48] @ (case [32, 121] of [] \<Rightarrow> []
                    | c # r \<Rightarrow> if c = 46 then 46 # takeWhile is_decimal r else []))"
    by (rule t1) (simp add: is_decimal_def decimal_value_def)
  have c: "normalize_amount (PyStr (46 # [55, 53])) =
        (if 1000000 < digits_value [55, 53] then Inr None
         else Inr (Some \<lparr>dsign = False, dcoeff = digits_value [55, 53] * 100, dexp = - 2\<rparr>))"
    by (rule t2) simp
  from a have a': "search_number (ustr ''x.50.25 y'') = Some (ustr ''50.25'')"
    by (simp add: ustr_def is_decimal_def decimal_value_def)
  from b have b': "search_number (ustr ''x.50 y'') = Some (ustr ''50'')"
    by (simp add: ustr_def)
  from c have c': "normalize_amount (PyStr (ustr ''.75'')) =
     Inr (Some \<lparr>dsign = False, dcoeff = 7500, dexp = - 2\<rparr>)"
    by (simp add: ustr_def digits_value_def decimal_value_def)
  from a' b' c' show ?thesis by (intro conjI)
qed



text \<open>
  Claim C9. For every list of normalized records \<open>get_normalization_stats\<close> returns
  a dictionary with the length of the list as total, the number of records with
  \<open>is_valid\<close> as valid, total minus valid as invalid (the number of records that
  are not valid), the numbers of records without a date and without an amount,
  and a mapping that gives every category that occurs the number of records of
  that category, valid or not: each record counts once, so the counts add up to
  the total. The success rate is the \<open>int\<close> 0 for the empty list and otherwise
  the float \<open>valid / total * 100\<close>: the quotient of the two counts, rounded to a
  float, times 100, rounded again. It is a finite float between 0 and 100, and
  for a list of fewer than \<open>2 ^ 1022\<close> records, where the quotient is not
  subnormal, it is within the fraction \<open>1 / 2 ^ 51\<close> of the exact value.
\<close>

theorem stats_counts:
  "\<exists>st. get_normalization_stats ts = Inr st \<and>
     total_transactions st = length ts \<and>
     valid_transactions st = length (filter is_valid ts) \<and>
     invalid_transactions st = int (total_transactions st) - int (valid_transactions st) \<and>
     invalid_transactions st = int (length (filter (\<lambda>t. \<not> is_valid t) ts)) \<and>
     success_rate st =
       (if length ts > 0
        then FloatNum (float_mul
               (round_b64 (of_nat (length (filter is_valid ts)) / of_nat (length ts)))
               (Finite 100))
        else IntNum 0) \<and>
     (length ts > 0 \<longrightarrow>
        (\<exists>r. success_rate st = FloatNum (Finite r) \<and> 0 \<le> r \<and> r \<le> 100 \<and>
           (length ts < 2 ^ 1022 \<longrightarrow>
              \<bar>r - of_nat (length (filter is_valid ts)) / of_nat (length ts) * 100\<bar> * 2 ^ 51
                \<le> of_nat (length (filter is_valid ts)) / of_nat (length ts) * 100))) \<and>
     date_errors st = length (filter (\<lambda>t. normalized_date t = None) ts) \<and>
     amount_errors st = length (filter (\<lambda>t. normalized_amount t = None) ts) \<and>
     (\<forall>c. categories st c =
        (if c \<in> category ` set ts then Some (length (filter (\<lambda>t. category t = c) ts))
         else None)) \<and>
     (\<Sum>c\<in>category ` set ts. the (categories st c)) = length ts"
proof -
  define st where "st =
     \<lparr>total_transactions = length ts,
      valid_transactions = length (filter is_valid ts),
      invalid_transactions = int (length ts) - int (length (filter is_valid ts)),
      success_rate =
        (if length ts > 0
         then FloatNum (float_mul
                (round_b64 (of_nat (length (filter is_valid ts)) / of_nat (length ts)))
                (Finite 100))
         else IntNum 0),
      date_errors = length (filter (\<lambda>t. normalized_date t = None) ts),
      amount_errors = length (filter (\<lambda>t. normalized_amount t = None) ts),
      categories = count_categories Map.empty ts\<rparr>"
  have st: "get_normalization_stats ts = Inr st"
    unfolding st_def by (rule get_normalization_stats_returns)
  have f: "total_transactions st = length ts"
      "valid_transactions st = length (filter is_valid ts)"
      "invalid_transactions st = int (length ts) - int (length (filter is_valid ts))"
      "success_rate st =
         (if length ts > 0
          then FloatNum (float_mul
                 (round_b64 (of_nat (length (filter is_valid ts)) / of_nat (length ts)))
                 (Finite 100))
          else IntNum 0)"
      "date_errors st = length (filter (\<lambda>t. normalized_date t = None) ts)"
      "amount_errors st = length (filter (\<lambda>t. normalized_amount t = None) ts)"
      "categories st = count_categories Map.empty ts"
    unfolding st_def by simp_all
  have inv: "int (length ts) - int (length (filter is_valid ts)) =
             int (length (filter (\<lambda>t. \<not> is_valid t) ts))"
    using sum_length_filter_compl[of is_valid ts] by simp
  have cat: "\<forall>c. categories st c =
      (if c \<in> category ` set ts then Some (length (filter (\<lambda>t. category t = c) ts))
       else None)"
    unfolding f(7) by (simp add: count_categories_lookup)
  have total: "(\<Sum>c\<in>category ` set ts. the (categories st c)) = length ts"
    unfolding f(7) by (rule count_categories_total)
  have rate: "\<exists>r. success_rate st = FloatNum (Finite r) \<and> 0 \<le> r \<and> r \<le> 100 \<and>
           (length ts < 2 ^ 1022 \<longrightarrow>
              \<bar>r - of_nat (length (filter is_valid ts)) / of_nat (length ts) * 100\<bar> * 2 ^ 51
                \<le> of_nat (length (filter is_valid ts)) / of_nat (length ts) * 100)"
    if t: "length ts > 0"
  proof -
    have v: "length (filter is_valid ts) \<le> length ts" by (rule length_filter_le)
    from rate_bounds[OF t v] obtain q r where
      q: "round_b64 (of_nat (length (filter is_valid ts)) / of_nat (length ts)) = Finite q"
      and r: "round_b64 (q * 100) = Finite r" "0 \<le> r" "r \<le> 100"
      by blast
    have s: "success_rate st = FloatNum (Finite r)"
      using t unfolding f(4) q by (simp add: r(1))
    have "\<bar>r - of_nat (length (filter is_valid ts)) / of_nat (length ts) * 100\<bar> * 2 ^ 51
            \<le> of_nat (length (filter is_valid ts)) / of_nat (length ts) * 100"
      if "length ts < 2 ^ 1022"
      using t that v q r(1) by (rule rate_error)
    with s r(2,3) show ?thesis by blast
  qed
  show ?thesis
    apply (rule exI[of _ st])
    using st f(1,2,3,4,5,6) inv cat total rate by simp
qed

theorem stats_counts_witness:
  "(\<exists>st. get_normalization_stats [example_valid, example_invalid] = Inr st \<and>
      total_transactions st = 2 \<and> valid_transactions st = 1 \<and> invalid_transactions st = 1 \<and>
      success_rate st = FloatNum (Finite 50) \<and>
      date_errors st = 1 \<and> amount_errors st = 0 \<and>
      categories st (ustr ''uber'') = Some 2 \<and> categories st (ustr ''other'') = None) \<and>
   (\<exists>st. get_normalization_stats [] = Inr st \<and> total_transactions st = 0 \<and>
      success_rate st = IntNum 0) \<and>
   (\<exists>st. get_normalization_stats (replicate 11 example_valid @ replicate 9 example_invalid) = Inr st \<and>
      total_transactions st = 20 \<and> valid_transactions st = 11 \<and>
      success_rate st = FloatNum (Finite (55 + 1 / 2 ^ 47)))"
proof -
  have a: "round_b64 (1 / 2) = Finite (1 / 2)" by (simp add: float_eval)
  have b: "round_b64 50 = Finite 50" by (simp add: float_eval)
  have c: "round_b64 (11 / 20) = Finite (4953959590107546 / 2 ^ 53)" by (simp add: float_eval)
  have d: "round_b64 (61924494876344325 / 1125899906842624) =
           Finite (7740561859543041 / 140737488355328)" by (simp add: float_eval)
  have v: "is_valid example_valid" "\<not> is_valid example_invalid"
    by (simp_all add: example_valid_def example_invalid_def)
  from stats_counts[of "[example_valid, example_invalid]"]
  have 1: "\<exists>st. get_normalization_stats [example_valid, example_invalid] = Inr st \<and>
      total_transactions st = 2 \<and> valid_transactions st = 1 \<and> invalid_transactions st = 1 \<and>
      success_rate st = FloatNum (Finite 50) \<and>
      date_errors st = 1 \<and> amount_errors st = 0 \<and>
      categories st (ustr ''uber'') = Some 2 \<and> categories st (ustr ''other'') = None"
    by (auto simp: example_valid_def example_invalid_def ustr_def a b)
  from stats_counts[of "[]"]
  have 2: "\<exists>st. get_normalization_stats [] = Inr st \<and> total_transactions st = 0 \<and>
      success_rate st = IntNum 0"
    by auto
  from stats_counts[of "replicate 11 example_valid @ replicate 9 example_invalid"]
  have 3: "\<exists>st. get_normalization_stats (replicate 11 example_valid @ replicate 9 example_invalid) = Inr st \<and>
      total_transactions st = 20 \<and> valid_transactions st = 11 \<and>
      success_rate st = FloatNum (Finite (55 + 1 / 2 ^ 47))"
    by (auto simp: v c d)
  from 1 2 3 show ?thesis by blast
qed

end
